theory Spec2Isabelle
  imports Complex_Main "HOL-Library.Sublist"
begin

section \<open>Strings of the program\<close>

text \<open>
  A TypeScript string is a sequence of UTF-16 code units.  A code unit is modelled by
  its number, a string by the list of its code units.  \<open>js\<close> turns an ASCII
  literal of this theory into such a string.
\<close>

type_synonym jsstring = "nat list"

definition js :: "string \<Rightarrow> jsstring" where
  "js s = map of_char s"

text \<open>
  The characters that \<^verbatim>\<open>\s\<close> matches and that \<^verbatim>\<open>trim()\<close> strips: the
  white space and line terminator code points of ECMAScript (tab, line feed, vertical
  tab, form feed, carriage return, space, no-break space, U+1680, U+2000 to U+200A,
  U+2028, U+2029, U+202F, U+205F, U+3000, U+FEFF).
\<close>

definition isWs :: "nat \<Rightarrow> bool" where
  "isWs c = ((9 \<le> c \<and> c \<le> 13) \<or> c = 32 \<or> c = 160 \<or> c = 5760 \<or> (8192 \<le> c \<and> c \<le> 8202)
     \<or> c = 8232 \<or> c = 8233 \<or> c = 8239 \<or> c = 8287 \<or> c = 12288 \<or> c = 65279)"

text \<open>The class \<^verbatim>\<open>[.!?]\<close> and its complement \<^verbatim>\<open>[^.!?]\<close>.\<close>

definition isTerm :: "nat \<Rightarrow> bool" where
  "isTerm c = (c = 46 \<or> c = 33 \<or> c = 63)"

definition notTerm :: "nat \<Rightarrow> bool" where
  "notTerm c = (\<not> isTerm c)"

text \<open>The class \<^verbatim>\<open>[:\s]\<close>, the character \<^verbatim>\<open>\n\<close> and the class \<^verbatim>\<open>[^\n]\<close>.\<close>

definition isSep :: "nat \<Rightarrow> bool" where
  "isSep c = (c = 58 \<or> isWs c)"

definition isNL :: "nat \<Rightarrow> bool" where
  "isNL c = (c = 10)"

definition notNL :: "nat \<Rightarrow> bool" where
  "notNL c = (c \<noteq> 10)"

text \<open>
  Matching under the flag \<^verbatim>\<open>i\<close> (without \<^verbatim>\<open>u\<close>) compares canonical
  forms: a character is mapped to its upper case, except that a character above
  U+007F is never mapped into ASCII.  Every pattern character of this program is an
  ASCII letter or a space, so a text character equals it canonically exactly when
  the two agree after the ASCII lower case letters are mapped to upper case.
\<close>

definition canon :: "nat \<Rightarrow> nat" where
  "canon c = (if 97 \<le> c \<and> c \<le> 122 then c - 32 else c)"

definition ci :: "nat \<Rightarrow> nat \<Rightarrow> bool" where
  "ci p c = (canon c = canon p)"

text \<open>\<^verbatim>\<open>String.prototype.trim\<close>.\<close>

definition trim :: "jsstring \<Rightarrow> jsstring" where
  "trim s = rev (dropWhile isWs (rev (dropWhile isWs s)))"

text \<open>\<^verbatim>\<open>text.split('\n')\<close>: the pieces between the line feeds, at least one.\<close>

fun splitNL :: "jsstring \<Rightarrow> jsstring list" where
  "splitNL [] = [[]]"
| "splitNL (c # cs) = (if c = 10 then [] # splitNL cs
     else (case splitNL cs of l # ls \<Rightarrow> (c # l) # ls | [] \<Rightarrow> [[c]]))"

text \<open>\<^verbatim>\<open>xs.slice(i, j)\<close> for indices that are not negative.\<close>

definition slice :: "nat \<Rightarrow> nat \<Rightarrow> 'a list \<Rightarrow> 'a list" where
  "slice i j xs = take (j - i) (drop i xs)"

section \<open>Regular expressions\<close>

text \<open>
  The fragment of regular expressions the program uses: the empty pattern, one
  character of a class, a greedy \<^verbatim>\<open>+\<close> or \<^verbatim>\<open>*\<close> of a class, sequence,
  alternative and \<^verbatim>\<open>$\<close> (without the flag \<^verbatim>\<open>m\<close>: the end of the input).
\<close>

datatype rx = Eps | Cls "nat \<Rightarrow> bool" | PlusC "nat \<Rightarrow> bool" | StarC "nat \<Rightarrow> bool"
  | Cat rx rx | Or rx rx | Dollar

text \<open>
  A backtracking matcher tries the alternatives of a pattern in a fixed order and
  takes the first that lets the rest of the pattern match.  \<open>ends r s\<close> lists, in
  that order, what is left of the input \<open>s\<close> after each way \<open>r\<close> matches at its
  start: a greedy repetition offers its longest run first, a sequence tries every
  continuation of an earlier choice before a later choice, an alternative its left
  branch first.  The match the engine reports is the head of the list.
\<close>

fun runs :: "(nat \<Rightarrow> bool) \<Rightarrow> jsstring \<Rightarrow> jsstring list" where
  "runs P [] = [[]]"
| "runs P (c # cs) = (if P c then runs P cs @ [c # cs] else [c # cs])"

fun ends :: "rx \<Rightarrow> jsstring \<Rightarrow> jsstring list" where
  "ends Eps s = [s]"
| "ends (Cls P) s = (case s of [] \<Rightarrow> [] | c # cs \<Rightarrow> if P c then [cs] else [])"
| "ends (PlusC P) s = (case s of [] \<Rightarrow> [] | c # cs \<Rightarrow> if P c then runs P cs else [])"
| "ends (StarC P) s = runs P s"
| "ends (Cat a b) s = concat (map (ends b) (ends a s))"
| "ends (Or a b) s = ends a s @ ends b s"
| "ends Dollar s = (if s = [] then [[]] else [])"

text \<open>
  One search of the engine: the leftmost position where the pattern matches, as
  (start index, length of the match).  The patterns here have no look-behind and no
  \<^verbatim>\<open>^\<close>, so a match at a position depends on the text from there on only.
\<close>

fun search :: "rx \<Rightarrow> jsstring \<Rightarrow> (nat \<times> nat) option" where
  "search r [] = (case ends r [] of [] \<Rightarrow> None | e # _ \<Rightarrow> Some (0, 0))"
| "search r (c # cs) = (case ends r (c # cs) of
       e # _ \<Rightarrow> Some (0, length (c # cs) - length e)
     | [] \<Rightarrow> map_option (\<lambda>(p, n). (Suc p, n)) (search r cs))"

text \<open>
  \<^verbatim>\<open>text.match(/r/g)\<close>: the matched substrings from left to right, each search
  starting where the last match ended (one character further after an empty match).
  The empty list stands for the result \<^verbatim>\<open>null\<close>.
\<close>

function matchAll :: "rx \<Rightarrow> jsstring \<Rightarrow> jsstring list" where
  "matchAll r s = (case search r s of
       None \<Rightarrow> []
     | Some (p, n) \<Rightarrow> take n (drop p s) #
         (if n = 0 then (if p < length s then matchAll r (drop (Suc p) s) else [])
          else matchAll r (drop (p + n) s)))"
  by pat_completeness auto
termination
proof (relation "measure (\<lambda>(r, s). length s)")
  fix r :: rx and s :: jsstring and x2 :: "nat \<times> nat" and p n :: nat
  assume "search r s = Some x2" "(p, n) = x2" "n \<noteq> 0"
  then have "s \<noteq> []" by (cases s) (auto split: list.splits)
  then show "((r, drop (p + n) s), (r, s)) \<in> measure (\<lambda>(r, s). length s)"
    using \<open>n \<noteq> 0\<close> by simp
qed auto

text \<open>\<^verbatim>\<open>text.replace(/r/g, '')\<close>: the text without its matches.\<close>

function stripMatches :: "rx \<Rightarrow> jsstring \<Rightarrow> jsstring" where
  "stripMatches r s = (case search r s of
       None \<Rightarrow> s
     | Some (p, n) \<Rightarrow> take p s @
         (if n = 0 then (if p < length s then s ! p # stripMatches r (drop (Suc p) s) else [])
          else stripMatches r (drop (p + n) s)))"
  by pat_completeness auto
termination
proof (relation "measure (\<lambda>(r, s). length s)")
  fix r :: rx and s :: jsstring and x2 :: "nat \<times> nat" and p n :: nat
  assume "search r s = Some x2" "(p, n) = x2" "n \<noteq> 0"
  then have "s \<noteq> []" by (cases s) (auto split: list.splits)
  then show "((r, drop (p + n) s), (r, s)) \<in> measure (\<lambda>(r, s). length s)"
    using \<open>n \<noteq> 0\<close> by simp
qed auto

text \<open>Whatever a pattern leaves is the end of the text it started on.\<close>

lemma runs_suffix: "e \<in> set (runs P s) \<Longrightarrow> suffix e s"
  by (induction s) (auto simp: suffix_Cons split: if_splits)

lemma ends_suffix: "e \<in> set (ends r s) \<Longrightarrow> suffix e s"
proof (induction r arbitrary: s e)
  case (Cat a b)
  then obtain m where "m \<in> set (ends a s)" "e \<in> set (ends b m)" by auto
  then show ?case using Cat.IH suffix_order.trans by blast
qed (auto simp: suffix_Cons dest: runs_suffix split: list.splits if_splits)

lemma ends_length: "e \<in> set (ends r s) \<Longrightarrow> length e \<le> length s"
  by (drule ends_suffix) (rule suffix_length_le)

text \<open>
  \<^verbatim>\<open>text.split(/r/)\<close>, as the language defines it: the pattern is tried at every
  position \<open>q\<close> before the end of the text; a match that ends at the start \<open>p\<close> of
  the current piece is skipped; any other match closes the piece from \<open>p\<close> to
  \<open>q\<close>, and the next piece starts where the match ended.  The empty text gives
  no piece when the pattern matches it and one empty piece otherwise.
\<close>

function splitLoop :: "rx \<Rightarrow> jsstring \<Rightarrow> nat \<Rightarrow> nat \<Rightarrow> jsstring list" where
  "splitLoop r s p q =
     (if q < length s then
        (case ends r (drop q s) of
           [] \<Rightarrow> splitLoop r s p (Suc q)
         | e # _ \<Rightarrow>
             (if length s - length e = p then splitLoop r s p (Suc q)
              else slice p q s # splitLoop r s (length s - length e) (length s - length e)))
      else [drop p s])"
  by pat_completeness auto
termination
proof (relation "measure (\<lambda>(r, s, p, q). 2 * (length s - q) + (if p = q then 0 else 1))")
  fix r :: rx and s :: jsstring and p q :: nat and e :: jsstring and es :: "jsstring list"
  assume q: "q < length s" and e: "ends r (drop q s) = e # es"
    and ne: "length s - length e \<noteq> p"
  from e have "length e \<le> length (drop q s)" by (intro ends_length [where r = r]) simp
  then have "q \<le> length s - length e" using q by simp
  then show "((r, s, length s - length e, length s - length e), (r, s, p, q))
      \<in> measure (\<lambda>(r, s, p, q). 2 * (length s - q) + (if p = q then 0 else 1))"
    using q ne by auto
qed auto

definition splitRx :: "rx \<Rightarrow> jsstring \<Rightarrow> jsstring list" where
  "splitRx r s = (if s = [] then (if ends r [] = [] then [[]] else []) else splitLoop r s 0 0)"

section \<open>The disclosure chunks\<close>

text \<open>
  The sentence pattern of the first variant of the application,
  \<^verbatim>\<open>/[^.!?]+[.!?]+(?:\s+|$)/g\<close>, and of the second, \<^verbatim>\<open>/[^.!?]+[.!?]+(?:\s|$)/g\<close>.
\<close>

definition sentRx000 :: rx where
  "sentRx000 = Cat (PlusC notTerm) (Cat (PlusC isTerm) (Or (PlusC isWs) Dollar))"

definition sentRx001 :: rx where
  "sentRx001 = Cat (PlusC notTerm) (Cat (PlusC isTerm) (Or (Cls isWs) Dollar))"

text \<open>A literal word under the flag \<^verbatim>\<open>i\<close>.\<close>

definition litCI :: "jsstring \<Rightarrow> rx" where
  "litCI w = foldr (\<lambda>p r. Cat (Cls (ci p)) r) w Eps"

text \<open>
  \<^verbatim>\<open>/Final Diagnosis[:\s]+[^\n]+/\<close> in two parts: the marker with its separator and
  the value after it (the capture group of \<open>extractFinalDiagnosis\<close>).
\<close>

definition markerRx :: rx where
  "markerRx = Cat (litCI (js ''Final Diagnosis'')) (PlusC isSep)"

definition valueRx :: rx where
  "valueRx = PlusC notNL"

definition solutionRx :: rx where
  "solutionRx = Cat markerRx valueRx"

text \<open>The paragraph separator \<^verbatim>\<open>/\n\s*\n/\<close> of the second variant.\<close>

definition paraSepRx :: rx where
  "paraSepRx = Cat (Cls isNL) (Cat (StarC isWs) (Cls isNL))"

text \<open>
  \<^verbatim>\<open>text.match(/[^.!?]+[.!?]+(?:\s+|$)/g) || [text]\<close>: the matches, or the whole
  text as one sentence when there is none.
\<close>

definition sentences000 :: "jsstring \<Rightarrow> jsstring list" where
  "sentences000 t = (case matchAll sentRx000 t of [] \<Rightarrow> [t] | m # ms \<Rightarrow> m # ms)"

definition sentences001 :: "jsstring \<Rightarrow> jsstring list" where
  "sentences001 para = (case matchAll sentRx001 para of [] \<Rightarrow> [para] | m # ms \<Rightarrow> m # ms)"

text \<open>
  The loop of the first variant: five sentences a chunk, joined and trimmed; an empty
  chunk is not pushed.
\<close>

function chunkLoop000 :: "nat \<Rightarrow> jsstring list \<Rightarrow> jsstring list" where
  "chunkLoop000 i sentences =
     (if i < length sentences then
        (let chunk = trim (concat (slice i (i + 5) sentences))
         in (if chunk \<noteq> [] then [chunk] else []) @ chunkLoop000 (i + 5) sentences)
      else [])"
  by pat_completeness auto
termination
  by (relation "measure (\<lambda>(i, sentences). length sentences - i)") auto

text \<open>The loop of the second variant pushes every chunk.\<close>

function chunkLoop001 :: "nat \<Rightarrow> jsstring list \<Rightarrow> jsstring list" where
  "chunkLoop001 i sentences =
     (if i < length sentences then
        trim (concat (slice i (i + 5) sentences)) # chunkLoop001 (i + 5) sentences
      else [])"
  by pat_completeness auto
termination
  by (relation "measure (\<lambda>(i, sentences). length sentences - i)") auto

definition stripSolution :: "jsstring \<Rightarrow> jsstring" where
  "stripSolution caseText = trim (stripMatches solutionRx caseText)"

definition chunkText000 :: "jsstring \<Rightarrow> jsstring list" where
  "chunkText000 textWithoutSolution = chunkLoop000 0 (sentences000 textWithoutSolution)"

definition chunkPara001 :: "jsstring \<Rightarrow> jsstring list" where
  "chunkPara001 para = chunkLoop001 0 (sentences001 para)"

definition paragraphs001 :: "jsstring \<Rightarrow> jsstring list" where
  "paragraphs001 caseText = filter (\<lambda>p. 0 < length (trim p)) (splitRx paraSepRx caseText)"

definition chunks000 :: "jsstring \<Rightarrow> jsstring list" where
  "chunks000 caseText = chunkText000 (stripSolution caseText)"

definition chunks001 :: "jsstring \<Rightarrow> jsstring list" where
  "chunks001 caseText = concat (map chunkPara001 (paragraphs001 caseText))"

text \<open>
  A text is tightly spaced when no sentence terminator is followed by two white space
  characters.
\<close>

fun tight :: "jsstring \<Rightarrow> bool" where
  "tight (a # b # c # cs) = (\<not> (isTerm a \<and> isWs b \<and> isWs c) \<and> tight (b # c # cs))"
| "tight cs = True"

text \<open>
  Two ways to pad a list of sentences with white space: before its first sentence
  and after its last.  They relate the sentences of a text to those of the same
  text with white space around it.
\<close>

fun padFirst :: "jsstring \<Rightarrow> jsstring list \<Rightarrow> jsstring list" where
  "padFirst l [] = []"
| "padFirst l (a # as) = (l @ a) # as"

fun padLast :: "jsstring \<Rightarrow> jsstring list \<Rightarrow> jsstring list" where
  "padLast w [] = []"
| "padLast w [a] = [a @ w]"
| "padLast w (a # b # bs) = a # padLast w (b # bs)"

text \<open>
  What is left of a text after the sentence at its start, as the pattern of the
  second variant matches it: a character that is no terminator, the rest of the run
  of such characters, then the run of terminators, then one white space character
  or the end.
\<close>

definition sentEnd :: "jsstring \<Rightarrow> jsstring option" where
  "sentEnd s =
     (case s of [] \<Rightarrow> None
      | c # cs \<Rightarrow>
          if isTerm c then None
          else (case dropWhile notTerm cs of [] \<Rightarrow> None
                | d # ds \<Rightarrow>
                    (case dropWhile isTerm ds of [] \<Rightarrow> Some []
                     | w # r \<Rightarrow> if isWs w then Some r else None)))"

section \<open>The Final Diagnosis extractor\<close>

text \<open>
  The capture of the group of a pattern \<^verbatim>\<open>a(b)\<close> at the start of a text: the
  first way to match \<open>a\<close> and then \<open>b\<close>, in the order of the engine, and what
  \<open>b\<close> consumed there.
\<close>

definition execCapture :: "rx \<Rightarrow> rx \<Rightarrow> jsstring \<Rightarrow> jsstring option" where
  "execCapture a b s =
     (case concat (map (\<lambda>e1. map (\<lambda>e2. take (length e1 - length e2) e1) (ends b e1)) (ends a s)) of
        [] \<Rightarrow> None
      | cap # _ \<Rightarrow> Some cap)"

text \<open>\<^verbatim>\<open>line.match(/a(b)/)\<close>: the capture of the leftmost match, if any.\<close>

fun searchCapture :: "rx \<Rightarrow> rx \<Rightarrow> jsstring \<Rightarrow> jsstring option" where
  "searchCapture a b [] = execCapture a b []"
| "searchCapture a b (c # cs) =
     (case execCapture a b (c # cs) of Some cap \<Rightarrow> Some cap | None \<Rightarrow> searchCapture a b cs)"

text \<open>\<^verbatim>\<open>line.match(/Final Diagnosis[:\s]+([^\n]+)/i)\<close> on a trimmed line.\<close>

definition lineMatch :: "jsstring \<Rightarrow> jsstring option" where
  "lineMatch line = searchCapture markerRx valueRx (trim line)"

text \<open>
  The loop of \<open>extractFinalDiagnosis\<close>, from the last line down to the first;
  the second argument is \<open>i + 1\<close>, and the loop ends with the empty string.
\<close>

fun extractLoop :: "jsstring list \<Rightarrow> nat \<Rightarrow> jsstring" where
  "extractLoop lines 0 = []"
| "extractLoop lines (Suc i) =
     (case lineMatch (lines ! i) of Some cap \<Rightarrow> trim cap | None \<Rightarrow> extractLoop lines i)"

definition extractFinalDiagnosis :: "jsstring \<Rightarrow> jsstring" where
  "extractFinalDiagnosis txt = extractLoop (splitNL txt) (length (splitNL txt))"

text \<open>
  The marker in the words of the specification, to compare the extractor with: a
  text starts with the marker when its first fifteen characters are
  \<^verbatim>\<open>Final Diagnosis\<close> up to the case of the letters, the next character is a
  colon or white space, and at least one more character follows.  A line has the
  marker when some end piece of the trimmed line starts with it.
\<close>

definition markerAt_spec :: "jsstring \<Rightarrow> bool" where
  "markerAt_spec s = (map canon (take 15 s) = map canon (js ''Final Diagnosis'')
     \<and> (case drop 15 s of c # d # _ \<Rightarrow> isSep c | _ \<Rightarrow> False))"

definition hasMarker_spec :: "jsstring \<Rightarrow> bool" where
  "hasMarker_spec line = list_ex markerAt_spec (suffixes (trim line))"

section \<open>The session\<close>

type_synonym jsnumber = real

record CaseEntry =
  id_entry :: jsstring
  text_entry :: jsstring
  relevanceScore :: "jsnumber option"

record TeachingPoint =
  title :: jsstring
  description :: jsstring
  level :: jsstring
  imageUrl :: "jsstring option"

datatype StudentLevel = MS1 | MS2 | MS3 | MS4 | Intern

text \<open>The state variables of the component \<open>App\<close>, the same in both variants.\<close>

record Session =
  caseText :: jsstring
  chunks :: "jsstring list"
  visibleIndex :: nat
  isCaseLoaded :: bool
  differentials :: "CaseEntry list"
  labs :: "CaseEntry list"
  diagnostics :: "CaseEntry list"
  treatments :: "CaseEntry list"
  reviewMode :: bool
  finalDiagnosis :: jsstring
  teachingPoints :: "TeachingPoint list"
  studentLevel :: StudentLevel
  loadingPoints :: bool

definition initSession :: Session where
  "initSession = \<lparr> caseText = [], chunks = [], visibleIndex = 0, isCaseLoaded = False,
     differentials = [], labs = [], diagnostics = [], treatments = [],
     reviewMode = False, finalDiagnosis = [], teachingPoints = [],
     studentLevel = MS3, loadingPoints = False \<rparr>"

definition handleCaseUpload :: "jsstring \<Rightarrow> Session \<Rightarrow> Session" where
  "handleCaseUpload v s = s\<lparr>caseText := v\<rparr>"

definition startCase000 :: "Session \<Rightarrow> Session" where
  "startCase000 s =
     (if trim (caseText s) = [] then s
      else s\<lparr>chunks := chunks000 (caseText s), visibleIndex := 1, isCaseLoaded := True,
        reviewMode := False, differentials := [], labs := [], diagnostics := [],
        treatments := [], finalDiagnosis := [], teachingPoints := []\<rparr>)"

definition startCase001 :: "Session \<Rightarrow> Session" where
  "startCase001 s =
     (if trim (caseText s) = [] then s
      else s\<lparr>chunks := chunks001 (caseText s), visibleIndex := 1, isCaseLoaded := True,
        reviewMode := False, differentials := [], labs := [], diagnostics := [],
        treatments := [], finalDiagnosis := [], teachingPoints := []\<rparr>)"

text \<open>\<open>nextParagraph\<close> is the same in both variants.\<close>

definition nextParagraph :: "Session \<Rightarrow> Session" where
  "nextParagraph s =
     (if visibleIndex s < length (chunks s) then s\<lparr>visibleIndex := visibleIndex s + 1\<rparr> else s)"

definition handleReview000 :: "Session \<Rightarrow> Session" where
  "handleReview000 s =
     (let extracted = extractFinalDiagnosis (caseText s);
          diagnosis = (if extracted \<noteq> [] then extracted else js ''Diagnosis not specified in text'')
      in s\<lparr>finalDiagnosis := diagnosis, reviewMode := True\<rparr>)"

definition handleReview001 :: "Session \<Rightarrow> Session" where
  "handleReview001 s =
     (let extracted = extractFinalDiagnosis (caseText s)
      in s\<lparr>finalDiagnosis := extracted, reviewMode := True\<rparr>)"

definition reset000 :: "Session \<Rightarrow> Session" where
  "reset000 s = s\<lparr>isCaseLoaded := False, reviewMode := False, caseText := [],
     finalDiagnosis := [], teachingPoints := [], chunks := [], visibleIndex := 0\<rparr>"

definition reset001 :: "Session \<Rightarrow> Session" where
  "reset001 s = s\<lparr>isCaseLoaded := False, reviewMode := False, caseText := [],
     finalDiagnosis := [], teachingPoints := []\<rparr>"



text \<open>
  The actions of the user, each with the condition under which the screen offers it:
  the text area and the start button are on the upload screen (no case loaded); the
  button for the next chunk is shown outside review mode while chunks are hidden;
  the review button is shown outside review mode; the button for a new case is
  always shown once a case is loaded.
\<close>

datatype action = Upload jsstring | StartCase | RevealNext | Review | NewCase

definition step000 :: "action \<Rightarrow> Session \<Rightarrow> Session" where
  "step000 a s =
     (case a of
        Upload v \<Rightarrow> if \<not> isCaseLoaded s then handleCaseUpload v s else s
      | StartCase \<Rightarrow> if \<not> isCaseLoaded s then startCase000 s else s
      | RevealNext \<Rightarrow>
          if isCaseLoaded s \<and> \<not> reviewMode s \<and> visibleIndex s < length (chunks s)
          then nextParagraph s else s
      | Review \<Rightarrow> if isCaseLoaded s \<and> \<not> reviewMode s then handleReview000 s else s
      | NewCase \<Rightarrow> if isCaseLoaded s then reset000 s else s)"

definition step001 :: "action \<Rightarrow> Session \<Rightarrow> Session" where
  "step001 a s =
     (case a of
        Upload v \<Rightarrow> if \<not> isCaseLoaded s then handleCaseUpload v s else s
      | StartCase \<Rightarrow> if \<not> isCaseLoaded s then startCase001 s else s
      | RevealNext \<Rightarrow>
          if isCaseLoaded s \<and> \<not> reviewMode s \<and> visibleIndex s < length (chunks s)
          then nextParagraph s else s
      | Review \<Rightarrow> if isCaseLoaded s \<and> \<not> reviewMode s then handleReview001 s else s
      | NewCase \<Rightarrow> if isCaseLoaded s then reset001 s else s)"

definition run000 :: "action list \<Rightarrow> Session \<Rightarrow> Session" where
  "run000 as s = fold step000 as s"

definition run001 :: "action list \<Rightarrow> Session \<Rightarrow> Session" where
  "run001 as s = fold step001 as s"

section \<open>The teaching service\<close>

text \<open>
  The two functions of \<^verbatim>\<open>geminiService.ts\<close>.  The environment holds what they
  read from outside: the API key, the answer of \<^verbatim>\<open>generateContent\<close> to each of
  the two requests (a rejected promise, or a response whose \<^verbatim>\<open>text\<close> may be
  undefined) and \<^verbatim>\<open>JSON.parse\<close> at the two result types (\<open>None\<close> when it
  throws).  An element of a parsed score array may be \<^verbatim>\<open>null\<close>.  A function that
  rejects returns \<open>Inl\<close>.
\<close>

datatype svcError = TransportFailure

record Env =
  apiKey :: jsstring
  generatePoints :: "jsstring \<Rightarrow> StudentLevel \<Rightarrow> svcError + jsstring option"
  generateScores :: "jsstring \<Rightarrow> jsstring list \<Rightarrow> svcError + jsstring option"
  parsePoints :: "jsstring \<Rightarrow> TeachingPoint list option"
  parseScores :: "jsstring \<Rightarrow> jsnumber option list option"

text \<open>\<^verbatim>\<open>response.text || "[]"\<close>.\<close>

definition textOrEmptyArray :: "jsstring option \<Rightarrow> jsstring" where
  "textOrEmptyArray t = (case t of None \<Rightarrow> js ''[]'' | Some x \<Rightarrow> if x = [] then js ''[]'' else x)"

definition getTeachingPoints :: "Env \<Rightarrow> jsstring \<Rightarrow> StudentLevel \<Rightarrow> svcError + TeachingPoint list" where
  "getTeachingPoints env diagnosis lvl =
     (if apiKey env = [] then Inr []
      else (case generatePoints env diagnosis lvl of
              Inl e \<Rightarrow> Inl e
            | Inr response \<Rightarrow>
                (case parsePoints env (textOrEmptyArray response) of
                   None \<Rightarrow> Inr []
                 | Some v \<Rightarrow> Inr v)))"

definition assessDifferentials :: "Env \<Rightarrow> jsstring \<Rightarrow> jsstring list \<Rightarrow> svcError + jsnumber option list" where
  "assessDifferentials env diagnosis ds =
     (if apiKey env = [] then Inr (map (\<lambda>_. Some 0) ds)
      else (case generateScores env diagnosis ds of
              Inl e \<Rightarrow> Inl e
            | Inr response \<Rightarrow>
                (case parseScores env (textOrEmptyArray response) of
                   None \<Rightarrow> Inr (map (\<lambda>_. Some 0) ds)
                 | Some v \<Rightarrow> Inr v)))"

section \<open>The review\<close>

text \<open>\<^verbatim>\<open>scores[i] || 0\<close>: a position past the end, a null and a zero all give zero.\<close>

definition scoreOrZero :: "jsnumber option list \<Rightarrow> nat \<Rightarrow> jsnumber" where
  "scoreOrZero scores i =
     (if i < length scores then (case scores ! i of Some x \<Rightarrow> x | None \<Rightarrow> 0) else 0)"

text \<open>\<^verbatim>\<open>prev.map((d, i) => ({ ...d, relevanceScore: scores[i] || 0 }))\<close>.\<close>

definition mergeScores :: "CaseEntry list \<Rightarrow> jsnumber option list \<Rightarrow> CaseEntry list" where
  "mergeScores prev scores =
     map (\<lambda>(i, d). d\<lparr>relevanceScore := Some (scoreOrZero scores i)\<rparr>) (enumerate 0 prev)"

text \<open>\<^verbatim>\<open>hay.includes(needle)\<close>.\<close>

definition includes_js :: "jsstring \<Rightarrow> jsstring \<Rightarrow> bool" where
  "includes_js hay needle = list_ex (prefix needle) (suffixes hay)"

text \<open>
  What a run of the fetch does besides changing the state, in order: the calls of the
  two service functions and of \<^verbatim>\<open>setLoadingPoints\<close>, and the logging of a caught
  error.
\<close>

datatype effect = SetLoadingPoints bool
  | CallGetTeachingPoints jsstring StudentLevel
  | CallAssessDifferentials jsstring "jsstring list"
  | LogError

text \<open>
  \<open>fetchTeachingData\<close> of the first variant, run to its end on one state: the two
  requests one after the other, the second only after the first succeeded.
\<close>

definition fetchTeachingData000 :: "Env \<Rightarrow> Session \<Rightarrow> Session \<times> effect list" where
  "fetchTeachingData000 env s =
     (if finalDiagnosis s = [] \<or> includes_js (finalDiagnosis s) (js ''not specified'') then (s, [])
      else
        (case getTeachingPoints env (finalDiagnosis s) (studentLevel s) of
           Inl e \<Rightarrow>
             (s\<lparr>loadingPoints := False\<rparr>,
              [SetLoadingPoints True, CallGetTeachingPoints (finalDiagnosis s) (studentLevel s),
               LogError, SetLoadingPoints False])
         | Inr points \<Rightarrow>
             (if 0 < length (differentials s) then
                (case assessDifferentials env (finalDiagnosis s) (map text_entry (differentials s)) of
                   Inl e \<Rightarrow>
                     (s\<lparr>teachingPoints := points, loadingPoints := False\<rparr>,
                      [SetLoadingPoints True, CallGetTeachingPoints (finalDiagnosis s) (studentLevel s),
                       CallAssessDifferentials (finalDiagnosis s) (map text_entry (differentials s)),
                       LogError, SetLoadingPoints False])
                 | Inr scores \<Rightarrow>
                     (s\<lparr>teachingPoints := points,
                        differentials := mergeScores (differentials s) scores,
                        loadingPoints := False\<rparr>,
                      [SetLoadingPoints True, CallGetTeachingPoints (finalDiagnosis s) (studentLevel s),
                       CallAssessDifferentials (finalDiagnosis s) (map text_entry (differentials s)),
                       SetLoadingPoints False]))
              else
                (s\<lparr>teachingPoints := points, loadingPoints := False\<rparr>,
                 [SetLoadingPoints True, CallGetTeachingPoints (finalDiagnosis s) (studentLevel s),
                  SetLoadingPoints False]))))"

text \<open>
  \<open>fetchTeaching\<close> of the second variant: both requests are started, and the
  results are used only when neither failed.
\<close>

definition fetchTeaching001 :: "Env \<Rightarrow> Session \<Rightarrow> Session \<times> effect list" where
  "fetchTeaching001 env s =
     (if finalDiagnosis s = [] then (s, [])
      else
        (let calls = [SetLoadingPoints True, CallGetTeachingPoints (finalDiagnosis s) (studentLevel s)]
               @ (if 0 < length (differentials s)
                  then [CallAssessDifferentials (finalDiagnosis s) (map text_entry (differentials s))]
                  else []);
             scored = (if 0 < length (differentials s)
                       then assessDifferentials env (finalDiagnosis s) (map text_entry (differentials s))
                       else Inr [])
         in (case (getTeachingPoints env (finalDiagnosis s) (studentLevel s), scored) of
               (Inr points, Inr scores) \<Rightarrow>
                 ((if 0 < length (differentials s)
                   then s\<lparr>teachingPoints := points,
                          differentials := mergeScores (differentials s) scores,
                          loadingPoints := False\<rparr>
                   else s\<lparr>teachingPoints := points, loadingPoints := False\<rparr>),
                  calls @ [SetLoadingPoints False])
             | _ \<Rightarrow> (s\<lparr>loadingPoints := False\<rparr>, calls @ [LogError, SetLoadingPoints False]))))"



text \<open>
  \<open>addEntry\<close>: the text of a new entry is trimmed, and blank input adds nothing.
  The identifier, random in the program, is a parameter.
\<close>

definition addEntry :: "jsstring \<Rightarrow> jsstring \<Rightarrow> CaseEntry list \<Rightarrow> CaseEntry list" where
  "addEntry ident v prev =
     (if trim v = [] then prev
      else prev @ [\<lparr>id_entry = ident, text_entry = trim v, relevanceScore = None\<rparr>])"

section \<open>Example data\<close>

text \<open>
  A service that answers both requests, with the scores 40, 90 and 70, and a session
  in review mode with three differentials.
\<close>

definition demoEnv :: Env where
  "demoEnv = \<lparr>apiKey = js ''key'', generatePoints = (\<lambda>d l. Inr (Some (js ''[]''))),
      generateScores = (\<lambda>d ds. Inr (Some (js ''[40,90,70]''))),
      parsePoints = (\<lambda>t. Some []),
      parseScores = (\<lambda>t. if t = js ''[40,90,70]'' then Some [Some 40, Some 90, Some 70] else None)\<rparr>"

definition demoReview :: Session where
  "demoReview = initSession\<lparr>isCaseLoaded := True, reviewMode := True,
     finalDiagnosis := js ''Sepsis'',
     differentials := [\<lparr>id_entry = js ''a1'', text_entry = js ''Pneumonia'', relevanceScore = None\<rparr>,
                       \<lparr>id_entry = js ''b2'', text_entry = js ''Sepsis'', relevanceScore = None\<rparr>,
                       \<lparr>id_entry = js ''c3'', text_entry = js ''PE'', relevanceScore = None\<rparr>]\<rparr>"

text \<open>A service without an API key, one whose answers do not parse, and one that is down.\<close>

definition noKeyEnv :: Env where
  "noKeyEnv = \<lparr>apiKey = [], generatePoints = (\<lambda>d l. Inl TransportFailure),
      generateScores = (\<lambda>d ds. Inl TransportFailure),
      parsePoints = (\<lambda>t. None), parseScores = (\<lambda>t. None)\<rparr>"

definition garbledEnv :: Env where
  "garbledEnv = \<lparr>apiKey = js ''key'', generatePoints = (\<lambda>d l. Inr (Some (js ''<html>''))),
      generateScores = (\<lambda>d ds. Inr (Some (js ''<html>''))),
      parsePoints = (\<lambda>t. None), parseScores = (\<lambda>t. None)\<rparr>"

definition downEnv :: Env where
  "downEnv = \<lparr>apiKey = js ''key'', generatePoints = (\<lambda>d l. Inl TransportFailure),
      generateScores = (\<lambda>d ds. Inl TransportFailure),
      parsePoints = (\<lambda>t. None), parseScores = (\<lambda>t. None)\<rparr>"

text \<open>
  A service whose request for the teaching points fails while the scoring answers
  with 40, 90 and 70, and one whose responses have no text.
\<close>

definition pointsDownEnv :: Env where
  "pointsDownEnv = \<lparr>apiKey = js ''key'', generatePoints = (\<lambda>d l. Inl TransportFailure),
      generateScores = (\<lambda>d ds. Inr (Some (js ''[40,90,70]''))),
      parsePoints = (\<lambda>t. Some []),
      parseScores = (\<lambda>t. if t = js ''[40,90,70]'' then Some [Some 40, Some 90, Some 70] else None)\<rparr>"

definition noTextEnv :: Env where
  "noTextEnv = \<lparr>apiKey = js ''key'', generatePoints = (\<lambda>d l. Inr None),
      generateScores = (\<lambda>d ds. Inr None),
      parsePoints = (\<lambda>t. if t = js ''[]'' then Some [] else None),
      parseScores = (\<lambda>t. if t = js ''[]'' then Some [] else None)\<rparr>"

text \<open>
  A narrative with the marker on its first and on its last line, and a session
  started on a narrative without the marker.
\<close>

definition twoMarkers :: jsstring where
  "twoMarkers = js ''Final Diagnosis: Flu'' @ [10] @ js ''Fever.'' @ [10] @ js ''final diagnosis:  Sepsis ''"


text \<open>A narrative that ends with the answer line.\<close>

definition answerCase :: jsstring where
  "answerCase = js ''Patient has fever.'' @ [10] @ js ''Final Diagnosis: Pneumonia.''"


section \<open>Evaluating the model\<close>

lemmas char_defs = js_def isWs_def isTerm_def notTerm_def isSep_def isNL_def notNL_def
  canon_def ci_def

lemmas rx_defs = sentRx000_def sentRx001_def litCI_def markerRx_def valueRx_def solutionRx_def
  paraSepRx_def

lemmas session_defs = run000_def run001_def step000_def step001_def handleCaseUpload_def
  startCase000_def startCase001_def nextParagraph_def reset000_def reset001_def initSession_def

lemmas extract_defs = lineMatch_def execCapture_def extractFinalDiagnosis_def

lemmas chunk_defs = trim_def slice_def sentences000_def sentences001_def stripSolution_def
  chunkText000_def chunkPara001_def paragraphs001_def chunks000_def chunks001_def splitRx_def

section \<open>What the patterns match\<close>

lemma runs_iff: "e \<in> set (runs P s) \<longleftrightarrow> (\<exists>m. s = m @ e \<and> list_all P m)"
proof (induction s)
  case Nil
  then show ?case by auto
next
  case (Cons c cs)
  show ?case
  proof
    assume "e \<in> set (runs P (c # cs))"
    then consider "P c" "e \<in> set (runs P cs)" | "e = c # cs"
      by (auto split: if_splits)
    then show "\<exists>m. c # cs = m @ e \<and> list_all P m"
    proof cases
      case 1
      with Cons obtain m where "cs = m @ e" "list_all P m" by auto
      with 1 have "c # cs = (c # m) @ e \<and> list_all P (c # m)" by simp
      then show ?thesis by blast
    next
      case 2
      then have "c # cs = [] @ e \<and> list_all P []" by simp
      then show ?thesis by blast
    qed
  next
    assume "\<exists>m. c # cs = m @ e \<and> list_all P m"
    then obtain m where m: "c # cs = m @ e" "list_all P m" by auto
    show "e \<in> set (runs P (c # cs))"
    proof (cases m)
      case Nil
      with m show ?thesis by auto
    next
      case (Cons a m')
      with m have "a = c" "cs = m' @ e" "P c" "list_all P m'" by auto
      with Cons.IH show ?thesis by auto
    qed
  qed
qed

lemma runs_hd: "runs P s = dropWhile P s # tl (runs P s)"
  by (induction s) (auto, metis append_Cons list.sel(3))

lemma ends_PlusC_iff:
  "e \<in> set (ends (PlusC P) s) \<longleftrightarrow> (\<exists>m. s = m @ e \<and> m \<noteq> [] \<and> list_all P m)"
proof (cases s)
  case Nil
  then show ?thesis by auto
next
  case (Cons c cs)
  show ?thesis
  proof
    assume "e \<in> set (ends (PlusC P) s)"
    with Cons have "P c" "e \<in> set (runs P cs)" by (auto split: if_splits)
    then obtain m where "cs = m @ e" "list_all P m" by (auto simp: runs_iff)
    with Cons \<open>P c\<close> have "s = (c # m) @ e \<and> c # m \<noteq> [] \<and> list_all P (c # m)" by simp
    then show "\<exists>m. s = m @ e \<and> m \<noteq> [] \<and> list_all P m" by blast
  next
    assume "\<exists>m. s = m @ e \<and> m \<noteq> [] \<and> list_all P m"
    then obtain m where m: "s = m @ e" "m \<noteq> []" "list_all P m" by auto
    then obtain a m' where "m = a # m'" by (cases m) auto
    with m Cons have "P c" "cs = m' @ e" "list_all P m'" by auto
    then have "e \<in> set (runs P cs)" by (auto simp: runs_iff)
    with Cons \<open>P c\<close> show "e \<in> set (ends (PlusC P) s)" by simp
  qed
qed

lemma runs_hd_eq: "hd (runs P s) = dropWhile P s"
  by (subst runs_hd) simp

lemma ends_PlusC_hd:
  "ends (PlusC P) s \<noteq> [] \<Longrightarrow> hd (ends (PlusC P) s) = dropWhile P s"
  by (cases s) (auto split: if_splits simp: runs_hd_eq)

lemma ends_litCI:
  "ends (litCI w) s =
     (if length w \<le> length s \<and> map canon (take (length w) s) = map canon w
      then [drop (length w) s] else [])"
proof (induction w arbitrary: s)
  case Nil
  then show ?case by (simp add: litCI_def)
next
  case (Cons p w)
  have l: "litCI (p # w) = Cat (Cls (ci p)) (litCI w)" by (simp add: litCI_def)
  show ?case
  proof (cases s)
    case Nil
    then show ?thesis by (simp add: l)
  next
    case (Cons c cs)
    then show ?thesis using Cons.IH [of cs] by (auto simp: l ci_def)
  qed
qed

lemma length_fdWord: "length (js ''Final Diagnosis'') = 15"
  by (simp add: js_def)

lemma ends_markerRx:
  "ends markerRx s =
     (if 15 \<le> length s \<and> map canon (take 15 s) = map canon (js ''Final Diagnosis'')
      then ends (PlusC isSep) (drop 15 s) else [])"
  by (auto simp: markerRx_def ends_litCI length_fdWord simp del: ends.simps(3))

lemma ends_markerRx_iff:
  "e \<in> set (ends markerRx s) \<longleftrightarrow>
     (\<exists>m sep. s = m @ sep @ e \<and> map canon m = map canon (js ''Final Diagnosis'')
        \<and> sep \<noteq> [] \<and> list_all isSep sep)"
proof
  assume "e \<in> set (ends markerRx s)"
  then have a: "15 \<le> length s" "map canon (take 15 s) = map canon (js ''Final Diagnosis'')"
    and b: "e \<in> set (ends (PlusC isSep) (drop 15 s))"
    by (auto simp: ends_markerRx simp del: ends.simps(3) split: if_splits)
  from b obtain sep where "drop 15 s = sep @ e" "sep \<noteq> []" "list_all isSep sep"
    by (auto simp: ends_PlusC_iff simp del: ends.simps(3))
  with a have "s = take 15 s @ sep @ e \<and> map canon (take 15 s) = map canon (js ''Final Diagnosis'')
      \<and> sep \<noteq> [] \<and> list_all isSep sep"
    by (metis append_take_drop_id)
  then show "\<exists>m sep. s = m @ sep @ e \<and> map canon m = map canon (js ''Final Diagnosis'')
        \<and> sep \<noteq> [] \<and> list_all isSep sep"
    by blast
next
  assume "\<exists>m sep. s = m @ sep @ e \<and> map canon m = map canon (js ''Final Diagnosis'')
        \<and> sep \<noteq> [] \<and> list_all isSep sep"
  then obtain m sep where s: "s = m @ sep @ e" and m: "map canon m = map canon (js ''Final Diagnosis'')"
    and sep: "sep \<noteq> []" "list_all isSep sep" by auto
  from m have "length (map canon m) = length (map canon (js ''Final Diagnosis''))" by simp
  then have lm: "length m = 15" by (simp add: length_fdWord)
  then have "take 15 s = m" "drop 15 s = sep @ e" "15 \<le> length s" using s by auto
  moreover have "e \<in> set (ends (PlusC isSep) (sep @ e))"
    using sep by (auto simp: ends_PlusC_iff simp del: ends.simps(3))
  ultimately show "e \<in> set (ends markerRx s)"
    using m by (simp add: ends_markerRx del: ends.simps(3))
qed

lemma runs_nonempty: "runs P s \<noteq> []"
  by (subst runs_hd) simp

lemma ends_valueRx_Nil: "ends valueRx e = [] \<longleftrightarrow> (e = [] \<or> hd e = 10)"
  by (cases e) (auto simp: valueRx_def notNL_def runs_nonempty)

lemma hd_concat_map:
  "concat (map f xs) = y # ys \<Longrightarrow>
     \<exists>pre x post zs. xs = pre @ x # post \<and> (\<forall>u \<in> set pre. f u = []) \<and> f x = y # zs"
proof (induction xs)
  case Nil
  then show ?case by simp
next
  case (Cons a xs)
  show ?case
  proof (cases "f a")
    case Nil
    with Cons obtain pre x post zs where
      "xs = pre @ x # post" "\<forall>u \<in> set pre. f u = []" "f x = y # zs" by auto
    with Nil have "a # xs = (a # pre) @ x # post \<and> (\<forall>u \<in> set (a # pre). f u = []) \<and> f x = y # zs"
      by simp
    then show ?thesis by blast
  next
    case (Cons b bs)
    with Cons.prems have "a # xs = [] @ a # xs \<and> (\<forall>u \<in> set []. f u = []) \<and> f a = y # bs"
      by simp
    then show ?thesis by blast
  qed
qed

lemma execCapture_Some:
  assumes "execCapture a b s = Some cap"
  shows "\<exists>e1 \<in> set (ends a s). ends b e1 \<noteq> [] \<and> cap = take (length e1 - length (hd (ends b e1))) e1"
proof -
  let ?f = "\<lambda>e1. map (\<lambda>e2. take (length e1 - length e2) e1) (ends b e1)"
  from assms obtain ys where c: "concat (map ?f (ends a s)) = cap # ys"
    by (auto simp: execCapture_def split: list.splits)
  from hd_concat_map [OF c] obtain pre x post zs
    where x: "ends a s = pre @ x # post" "?f x = cap # zs"
    by auto
  then have "x \<in> set (ends a s)" "ends b x \<noteq> []" by auto
  moreover from x have "cap = take (length x - length (hd (ends b x))) x"
    by (cases "ends b x") auto
  ultimately show ?thesis by blast
qed

lemma execCapture_None: "execCapture a b s = None \<longleftrightarrow> (\<forall>e1 \<in> set (ends a s). ends b e1 = [])"
proof -
  have "(case L of [] \<Rightarrow> None | cap # _ \<Rightarrow> Some cap) = None \<longleftrightarrow> L = []" for L :: "jsstring list"
    by (cases L) auto
  then have "execCapture a b s = None \<longleftrightarrow>
      concat (map (\<lambda>e1. map (\<lambda>e2. take (length e1 - length e2) e1) (ends b e1)) (ends a s)) = []"
    by (simp add: execCapture_def)
  then show ?thesis by simp
qed

lemma searchCapture_Some:
  "searchCapture a b s = Some cap \<Longrightarrow>
     \<exists>pre s'. s = pre @ s' \<and> execCapture a b s' = Some cap
       \<and> (\<forall>k < length pre. execCapture a b (drop k s) = None)"
proof (induction s)
  case Nil
  then show ?case by simp
next
  case (Cons c cs)
  show ?case
  proof (cases "execCapture a b (c # cs)")
    case (Some cap')
    with Cons.prems have "c # cs = [] @ (c # cs) \<and> execCapture a b (c # cs) = Some cap
       \<and> (\<forall>k < length ([]::jsstring). execCapture a b (drop k (c # cs)) = None)"
      by simp
    then show ?thesis by blast
  next
    case None
    with Cons obtain pre s' where p: "cs = pre @ s'" "execCapture a b s' = Some cap"
      "\<forall>k < length pre. execCapture a b (drop k cs) = None" by auto
    have "\<forall>k < length (c # pre). execCapture a b (drop k (c # cs)) = None"
    proof (intro allI impI)
      fix k assume "k < length (c # pre)"
      then show "execCapture a b (drop k (c # cs)) = None"
        using None p(3) by (cases k) auto
    qed
    with p have "c # cs = (c # pre) @ s' \<and> execCapture a b s' = Some cap
       \<and> (\<forall>k < length (c # pre). execCapture a b (drop k (c # cs)) = None)"
      by simp
    then show ?thesis by blast
  qed
qed

lemma searchCapture_None:
  "searchCapture a b s = None \<longleftrightarrow> (\<forall>k \<le> length s. execCapture a b (drop k s) = None)"
proof (induction s)
  case Nil
  then show ?case by simp
next
  case (Cons c cs)
  show ?case
  proof (cases "execCapture a b (c # cs)")
    case (Some cap')
    then have "\<not> (\<forall>k \<le> length (c # cs). execCapture a b (drop k (c # cs)) = None)"
      by (auto intro: exI [of _ 0])
    with Some show ?thesis by simp
  next
    case None
    have "(\<forall>k \<le> length (c # cs). execCapture a b (drop k (c # cs)) = None)
       \<longleftrightarrow> (\<forall>k \<le> length cs. execCapture a b (drop k cs) = None)"
    proof
      assume h: "\<forall>k \<le> length (c # cs). execCapture a b (drop k (c # cs)) = None"
      show "\<forall>k \<le> length cs. execCapture a b (drop k cs) = None"
      proof (intro allI impI)
        fix k assume "k \<le> length cs"
        with h have "execCapture a b (drop (Suc k) (c # cs)) = None" by (metis Suc_le_mono length_Cons)
        then show "execCapture a b (drop k cs) = None" by simp
      qed
    next
      assume h: "\<forall>k \<le> length cs. execCapture a b (drop k cs) = None"
      show "\<forall>k \<le> length (c # cs). execCapture a b (drop k (c # cs)) = None"
      proof (intro allI impI)
        fix k assume "k \<le> length (c # cs)"
        then show "execCapture a b (drop k (c # cs)) = None"
          using None h by (cases k) auto
      qed
    qed
    with None Cons.IH show ?thesis by simp
  qed
qed

lemma execCapture_marker_Some:
  assumes "execCapture markerRx valueRx s = Some cap" and "10 \<notin> set s"
  shows "\<exists>m sep. s = m @ sep @ cap \<and> map canon m = map canon (js ''Final Diagnosis'')
     \<and> sep \<noteq> [] \<and> list_all isSep sep \<and> cap \<noteq> []"
proof -
  from execCapture_Some [OF assms(1)] obtain e1 where e1: "e1 \<in> set (ends markerRx s)"
    "ends valueRx e1 \<noteq> []" "cap = take (length e1 - length (hd (ends valueRx e1))) e1"
    by blast
  from e1(1) obtain m sep where s: "s = m @ sep @ e1"
    "map canon m = map canon (js ''Final Diagnosis'')" "sep \<noteq> []" "list_all isSep sep"
    by (auto simp: ends_markerRx_iff)
  with assms(2) have "10 \<notin> set e1" by simp
  then have "dropWhile notNL e1 = []" by (auto simp: notNL_def)
  with e1(2) have "hd (ends valueRx e1) = []"
    unfolding valueRx_def by (simp add: ends_PlusC_hd del: ends.simps(3))
  with e1(3) have "cap = e1" by simp
  moreover from e1(2) have "e1 \<noteq> []" by (simp add: ends_valueRx_Nil)
  ultimately show ?thesis using s by blast
qed

lemma execCapture_marker_iff:
  assumes "10 \<notin> set s"
  shows "execCapture markerRx valueRx s \<noteq> None \<longleftrightarrow> markerAt_spec s"
proof
  assume "execCapture markerRx valueRx s \<noteq> None"
  then obtain cap where "execCapture markerRx valueRx s = Some cap" by auto
  from execCapture_marker_Some [OF this assms] obtain m sep where s: "s = m @ sep @ cap"
    "map canon m = map canon (js ''Final Diagnosis'')" "sep \<noteq> []" "list_all isSep sep" "cap \<noteq> []"
    by blast
  from s(2) have "length (map canon m) = length (map canon (js ''Final Diagnosis''))" by simp
  then have "length m = 15" by (simp add: length_fdWord)
  with s(1) have t: "take 15 s = m" "drop 15 s = sep @ cap" by auto
  from s(3,4,5) obtain c sep' d cap' where "sep = c # sep'" "isSep c" "cap = d # cap'"
    by (cases sep; cases cap) auto
  with t have "drop 15 s = c # (sep' @ d # cap')" by simp
  moreover obtain x xs where "sep' @ d # cap' = x # xs" by (cases sep') auto
  ultimately have "drop 15 s = c # x # xs" by simp
  with t(1) s(2) \<open>isSep c\<close> show "markerAt_spec s"
    by (simp add: markerAt_spec_def)
next
  assume "markerAt_spec s"
  then obtain c d r where m: "map canon (take 15 s) = map canon (js ''Final Diagnosis'')"
    and d: "drop 15 s = c # d # r" "isSep c"
    by (auto simp: markerAt_spec_def split: list.splits)
  have "s = take 15 s @ [c] @ (d # r)" using d(1) by (metis append_Cons append_Nil append_take_drop_id)
  with m d(2) have "d # r \<in> set (ends markerRx s)"
    unfolding ends_markerRx_iff by (intro exI [of _ "take 15 s"] exI [of _ "[c]"]) simp
  moreover have "d \<in> set s" using d(1) by (metis in_set_dropD list.set_intros(1) list.set_intros(2))
  with assms have "d \<noteq> 10" by auto
  then have "ends valueRx (d # r) \<noteq> []" by (simp add: ends_valueRx_Nil)
  ultimately show "execCapture markerRx valueRx s \<noteq> None"
    unfolding execCapture_None by blast
qed

lemma set_trim: "set (trim s) \<subseteq> set s"
proof -
  have "set (dropWhile isWs (rev (dropWhile isWs s))) \<subseteq> set (rev (dropWhile isWs s))"
    by (rule set_dropWhileD [THEN subsetI])
  also have "\<dots> \<subseteq> set s" using set_dropWhileD by fastforce
  finally show ?thesis by (simp add: trim_def)
qed

lemma splitNL_no_NL: "l \<in> set (splitNL t) \<Longrightarrow> 10 \<notin> set l"
proof (induction t arbitrary: l)
  case Nil
  then show ?case by simp
next
  case (Cons c cs)
  then show ?case
    by (cases "splitNL cs") (auto split: if_splits)
qed

lemma lineMatch_iff_hasMarker_spec:
  assumes "10 \<notin> set l"
  shows "lineMatch l \<noteq> None \<longleftrightarrow> hasMarker_spec l"
proof -
  have nl: "10 \<notin> set (drop k (trim l))" for k
    using assms set_trim [of l] by (meson in_set_dropD subsetD)
  have "lineMatch l \<noteq> None \<longleftrightarrow>
      (\<exists>k \<le> length (trim l). execCapture markerRx valueRx (drop k (trim l)) \<noteq> None)"
    by (simp add: lineMatch_def searchCapture_None)
  also have "\<dots> \<longleftrightarrow> (\<exists>k \<le> length (trim l). markerAt_spec (drop k (trim l)))"
    using execCapture_marker_iff [OF nl] by simp
  also have "\<dots> \<longleftrightarrow> (\<exists>ys. suffix ys (trim l) \<and> markerAt_spec ys)"
  proof
    assume "\<exists>k \<le> length (trim l). markerAt_spec (drop k (trim l))"
    then obtain k where "markerAt_spec (drop k (trim l))" by blast
    moreover have "suffix (drop k (trim l)) (trim l)" by (rule suffix_drop)
    ultimately show "\<exists>ys. suffix ys (trim l) \<and> markerAt_spec ys" by blast
  next
    assume "\<exists>ys. suffix ys (trim l) \<and> markerAt_spec ys"
    then obtain ys zs where y: "trim l = zs @ ys" "markerAt_spec ys" by (auto simp: suffix_def)
    then have "drop (length zs) (trim l) = ys" "length zs \<le> length (trim l)" by simp_all
    with y(2) show "\<exists>k \<le> length (trim l). markerAt_spec (drop k (trim l))" by blast
  qed
  also have "\<dots> \<longleftrightarrow> hasMarker_spec l"
    by (auto simp: hasMarker_spec_def list_ex_iff in_set_suffixes)
  finally show ?thesis .
qed

lemma lineMatch_shape:
  assumes "lineMatch l = Some cap" and "10 \<notin> set l"
  shows "\<exists>pre m sep. trim l = pre @ m @ sep @ cap
     \<and> map canon m = map canon (js ''Final Diagnosis'')
     \<and> sep \<noteq> [] \<and> list_all isSep sep \<and> cap \<noteq> []
     \<and> (\<forall>k < length pre. \<not> markerAt_spec (drop k (trim l)))"
proof -
  have nl: "10 \<notin> set (drop k (trim l))" for k
    using assms(2) set_trim [of l] by (meson in_set_dropD subsetD)
  from assms(1) obtain pre s' where p: "trim l = pre @ s'"
    "execCapture markerRx valueRx s' = Some cap"
    "\<forall>k < length pre. execCapture markerRx valueRx (drop k (trim l)) = None"
    unfolding lineMatch_def using searchCapture_Some by blast
  have "s' = drop (length pre) (trim l)" using p(1) by simp
  then have "10 \<notin> set s'" using nl by simp
  from execCapture_marker_Some [OF p(2) this] obtain m sep where s: "s' = m @ sep @ cap"
    "map canon m = map canon (js ''Final Diagnosis'')" "sep \<noteq> []" "list_all isSep sep" "cap \<noteq> []"
    by blast
  have "\<forall>k < length pre. \<not> markerAt_spec (drop k (trim l))"
    using p(3) execCapture_marker_iff [OF nl] by blast
  with p(1) s show ?thesis by blast
qed

lemma runs_first_nonempty:
  "runs P s = pre @ e # post \<Longrightarrow> \<forall>u \<in> set pre. u = [] \<Longrightarrow> e \<noteq> [] \<Longrightarrow>
     \<not> P (hd e) \<or> length e = 1"
proof (induction s arbitrary: post)
  case Nil
  then show ?case by (cases pre) auto
next
  case (Cons c cs)
  show ?case
  proof (cases "P c")
    case False
    with Cons.prems have "e = c # cs" by (cases pre) auto
    with False show ?thesis by simp
  next
    case True
    with Cons.prems(1) have r: "runs P cs @ [c # cs] = pre @ e # post" by simp
    show ?thesis
    proof (cases post rule: rev_cases)
      case Nil
      with r have "pre = runs P cs" "e = c # cs" by auto
      moreover have "cs \<in> set (runs P cs)" by (auto simp: runs_iff)
      ultimately have "cs = []" using Cons.prems(2) by blast
      with \<open>e = c # cs\<close> show ?thesis by simp
    next
      case (snoc post' x)
      with r have "runs P cs = pre @ e # post'" by auto
      from Cons.IH [OF this Cons.prems(2,3)] show ?thesis .
    qed
  qed
qed

lemma execCapture_Some_first:
  assumes "execCapture a b s = Some cap"
  shows "\<exists>pre e1 post. ends a s = pre @ e1 # post \<and> (\<forall>u \<in> set pre. ends b u = [])
     \<and> ends b e1 \<noteq> [] \<and> cap = take (length e1 - length (hd (ends b e1))) e1"
proof -
  let ?f = "\<lambda>e1. map (\<lambda>e2. take (length e1 - length e2) e1) (ends b e1)"
  from assms obtain ys where c: "concat (map ?f (ends a s)) = cap # ys"
    by (auto simp: execCapture_def split: list.splits)
  from hd_concat_map [OF c] obtain pre x post zs
    where x: "ends a s = pre @ x # post" "\<forall>u \<in> set pre. ?f u = []" "?f x = cap # zs"
    by auto
  from x(3) have "ends b x \<noteq> []" "cap = take (length x - length (hd (ends b x))) x"
    by (cases "ends b x"; auto)+
  with x(1,2) show ?thesis by auto
qed

lemma execCapture_marker_greedy:
  assumes "execCapture markerRx valueRx s = Some cap" and "10 \<notin> set s"
  shows "\<not> isSep (hd cap) \<or> length cap = 1"
proof -
  from execCapture_Some_first [OF assms(1)] obtain pre e1 post where
    e: "ends markerRx s = pre @ e1 # post" "\<forall>u \<in> set pre. ends valueRx u = []"
      "ends valueRx e1 \<noteq> []" "cap = take (length e1 - length (hd (ends valueRx e1))) e1"
    by blast
  have sub: "u \<in> set (ends markerRx s) \<Longrightarrow> 10 \<notin> set u" for u
    using assms(2) by (auto simp: ends_markerRx_iff)
  have "10 \<notin> set e1" using sub e(1) by simp
  then have "dropWhile notNL e1 = []" by (auto simp: notNL_def)
  with e(3) have "hd (ends valueRx e1) = []"
    unfolding valueRx_def by (simp add: ends_PlusC_hd del: ends.simps(3))
  with e(4) have cap: "cap = e1" by simp
  from e(3) have ne: "e1 \<noteq> []" by (simp add: ends_valueRx_Nil)
  have pre: "\<forall>u \<in> set pre. u = []"
  proof
    fix u assume u: "u \<in> set pre"
    then have "10 \<notin> set u" using sub e(1) by simp
    moreover from u e(2) have "u = [] \<or> hd u = 10" by (simp add: ends_valueRx_Nil)
    ultimately show "u = []" by (cases u) auto
  qed
  from e(1) obtain c cs where "isSep c" "runs isSep cs = pre @ e1 # post"
    by (cases "drop 15 s") (auto simp: ends_markerRx split: if_splits)
  from runs_first_nonempty [OF this(2) pre ne] cap show ?thesis by simp
qed

section \<open>The loop of the extractor\<close>


lemma extractLoop_last:
  "n \<le> length lines \<Longrightarrow> list_ex (\<lambda>l. lineMatch l \<noteq> None) (take n lines) \<Longrightarrow>
     extractLoop lines n =
       trim (the (lineMatch (last (filter (\<lambda>l. lineMatch l \<noteq> None) (take n lines)))))"
proof (induction n)
  case 0
  then show ?case by simp
next
  case (Suc n)
  then have n: "n < length lines" by simp
  then have t: "take (Suc n) lines = take n lines @ [lines ! n]"
    by (simp add: take_Suc_conv_app_nth)
  show ?case
  proof (cases "lineMatch (lines ! n)")
    case (Some cap)
    then show ?thesis by (simp add: t)
  next
    case None
    with Suc.prems have "list_ex (\<lambda>l. lineMatch l \<noteq> None) (take n lines)"
      by (simp add: t)
    with Suc.IH n have "extractLoop lines n =
       trim (the (lineMatch (last (filter (\<lambda>l. lineMatch l \<noteq> None) (take n lines)))))"
      by simp
    with None show ?thesis by (simp add: t)
  qed
qed


section \<open>The score merge\<close>

lemma length_mergeScores: "length (mergeScores prev scores) = length prev"
  by (simp add: mergeScores_def)

lemma nth_mergeScores:
  "i < length prev \<Longrightarrow>
     mergeScores prev scores ! i = (prev ! i)\<lparr>relevanceScore := Some (scoreOrZero scores i)\<rparr>"
  by (simp add: mergeScores_def nth_enumerate_eq)

lemma fetch000_called:
  assumes "CallAssessDifferentials d ds \<in> set (snd (fetchTeachingData000 env s))"
    and "assessDifferentials env (finalDiagnosis s) (map text_entry (differentials s)) = Inr scores"
  shows "differentials (fst (fetchTeachingData000 env s)) = mergeScores (differentials s) scores"
  using assms by (auto simp: fetchTeachingData000_def split: if_splits sum.splits)

lemma fetch001_called:
  assumes "CallAssessDifferentials d ds \<in> set (snd (fetchTeaching001 env s))"
    and "assessDifferentials env (finalDiagnosis s) (map text_entry (differentials s)) = Inr scores"
    and "getTeachingPoints env (finalDiagnosis s) (studentLevel s) = Inr points"
  shows "differentials (fst (fetchTeaching001 env s)) = mergeScores (differentials s) scores"
  using assms by (auto simp: fetchTeaching001_def Let_def split: if_splits sum.splits)

lemma fetch000_discards:
  assumes "getTeachingPoints env (finalDiagnosis s) (studentLevel s) = Inl e"
  shows "differentials (fst (fetchTeachingData000 env s)) = differentials s
     \<and> CallAssessDifferentials d ds \<notin> set (snd (fetchTeachingData000 env s))"
  using assms by (auto simp: fetchTeachingData000_def split: if_splits sum.splits)

lemma fetch001_discards:
  assumes "getTeachingPoints env (finalDiagnosis s) (studentLevel s) = Inl e"
  shows "differentials (fst (fetchTeaching001 env s)) = differentials s"
  using assms by (auto simp: fetchTeaching001_def Let_def split: if_splits sum.splits)

text \<open>
  Claim C5, as the code has it.  Let the scoring of the differentials of \<open>s\<close> return
  \<open>scores\<close>.  When the fetch of the first variant makes the scoring request, the
  old list is not empty, the list \<open>ds'\<close> that the fetch stores has its length, and
  the entry of \<open>ds'\<close> at every position \<open>i\<close> has the identifier and the text
  of the old entry at \<open>i\<close> and the score \<open>scores[i]\<close>, or zero where that is
  missing or null.  So it is in the second variant when the fetch makes the scoring
  request and the request for the teaching points succeeds as well.  When the
  request for the teaching points fails, neither variant assigns a score: the list
  stays as it is, the first variant makes no scoring request, and the second drops
  the scores that it was given.
\<close>

theorem C5_merge_positional_amended:
  assumes "assessDifferentials env (finalDiagnosis s) (map text_entry (differentials s)) = Inr scores"
  shows
   "(CallAssessDifferentials (finalDiagnosis s) (map text_entry (differentials s))
        \<in> set (snd (fetchTeachingData000 env s)) \<longrightarrow>
       (let ds' = differentials (fst (fetchTeachingData000 env s)) in
          differentials s \<noteq> []
        \<and> length ds' = length (differentials s)
        \<and> (\<forall>i < length (differentials s).
              id_entry (ds' ! i) = id_entry (differentials s ! i)
            \<and> text_entry (ds' ! i) = text_entry (differentials s ! i)
            \<and> relevanceScore (ds' ! i) =
                Some (if i < length scores then (case scores ! i of Some x \<Rightarrow> x | None \<Rightarrow> 0) else 0))))
    \<and> (CallAssessDifferentials (finalDiagnosis s) (map text_entry (differentials s))
          \<in> set (snd (fetchTeaching001 env s))
        \<and> getTeachingPoints env (finalDiagnosis s) (studentLevel s) = Inr points \<longrightarrow>
       (let ds' = differentials (fst (fetchTeaching001 env s)) in
          differentials s \<noteq> []
        \<and> length ds' = length (differentials s)
        \<and> (\<forall>i < length (differentials s).
              id_entry (ds' ! i) = id_entry (differentials s ! i)
            \<and> text_entry (ds' ! i) = text_entry (differentials s ! i)
            \<and> relevanceScore (ds' ! i) =
                Some (if i < length scores then (case scores ! i of Some x \<Rightarrow> x | None \<Rightarrow> 0) else 0))))
    \<and> (getTeachingPoints env (finalDiagnosis s) (studentLevel s) = Inl e \<longrightarrow>
         differentials (fst (fetchTeachingData000 env s)) = differentials s
       \<and> CallAssessDifferentials (finalDiagnosis s) (map text_entry (differentials s))
           \<notin> set (snd (fetchTeachingData000 env s))
       \<and> differentials (fst (fetchTeaching001 env s)) = differentials s)"
proof -
  have a: "differentials (fst (fetchTeachingData000 env s)) = mergeScores (differentials s) scores"
    if "CallAssessDifferentials (finalDiagnosis s) (map text_entry (differentials s))
        \<in> set (snd (fetchTeachingData000 env s))"
    using that assms by (rule fetch000_called)
  have b: "differentials (fst (fetchTeaching001 env s)) = mergeScores (differentials s) scores"
    if "CallAssessDifferentials (finalDiagnosis s) (map text_entry (differentials s))
        \<in> set (snd (fetchTeaching001 env s))"
      and "getTeachingPoints env (finalDiagnosis s) (studentLevel s) = Inr points"
    using that(1) assms that(2) by (rule fetch001_called)
  have c: "differentials s \<noteq> []"
    if "CallAssessDifferentials (finalDiagnosis s) (map text_entry (differentials s))
        \<in> set (snd (fetchTeachingData000 env s))"
    using that by (auto simp: fetchTeachingData000_def split: if_splits sum.splits)
  have d: "differentials s \<noteq> []"
    if "CallAssessDifferentials (finalDiagnosis s) (map text_entry (differentials s))
        \<in> set (snd (fetchTeaching001 env s))"
    using that by (auto simp: fetchTeaching001_def Let_def split: if_splits sum.splits)
  show ?thesis
    using a b c d fetch001_discards [of env s e] fetch000_discards [of env s e]
    by (simp add: Let_def length_mergeScores nth_mergeScores scoreOrZero_def)
qed

theorem C5_merge_positional_witness:
  "assessDifferentials demoEnv (finalDiagnosis demoReview) (map text_entry (differentials demoReview))
     = Inr [Some 40, Some 90, Some 70]
   \<and> CallAssessDifferentials (finalDiagnosis demoReview) (map text_entry (differentials demoReview))
       \<in> set (snd (fetchTeachingData000 demoEnv demoReview))
   \<and> CallAssessDifferentials (finalDiagnosis demoReview) (map text_entry (differentials demoReview))
       \<in> set (snd (fetchTeaching001 demoEnv demoReview))
   \<and> getTeachingPoints demoEnv (finalDiagnosis demoReview) (studentLevel demoReview) = Inr []
   \<and> text_entry (differentials (fst (fetchTeachingData000 demoEnv demoReview)) ! 1) = js ''Sepsis''
   \<and> relevanceScore (differentials (fst (fetchTeachingData000 demoEnv demoReview)) ! 1) = Some 90
   \<and> text_entry (differentials (fst (fetchTeaching001 demoEnv demoReview)) ! 1) = js ''Sepsis''
   \<and> relevanceScore (differentials (fst (fetchTeaching001 demoEnv demoReview)) ! 1) = Some 90
   \<and> getTeachingPoints pointsDownEnv (finalDiagnosis demoReview) (studentLevel demoReview)
       = Inl TransportFailure
   \<and> differentials (fst (fetchTeachingData000 pointsDownEnv demoReview)) = differentials demoReview
   \<and> differentials (fst (fetchTeaching001 pointsDownEnv demoReview)) = differentials demoReview"
proof -
  have c: "getTeachingPoints demoEnv (finalDiagnosis demoReview) (studentLevel demoReview) = Inr []"
    by (simp add: getTeachingPoints_def demoEnv_def js_def)
  have e: "assessDifferentials demoEnv (finalDiagnosis demoReview)
      (map text_entry (differentials demoReview)) = Inr [Some 40, Some 90, Some 70]"
    by (simp add: assessDifferentials_def demoEnv_def textOrEmptyArray_def js_def)
  have c': "getTeachingPoints pointsDownEnv (finalDiagnosis demoReview) (studentLevel demoReview)
      = Inl TransportFailure"
    by (simp add: getTeachingPoints_def pointsDownEnv_def js_def)
  have e': "assessDifferentials pointsDownEnv (finalDiagnosis demoReview)
      (map text_entry (differentials demoReview)) = Inr [Some 40, Some 90, Some 70]"
    by (simp add: assessDifferentials_def pointsDownEnv_def textOrEmptyArray_def js_def)
  have g: "finalDiagnosis demoReview \<noteq> []"
    "\<not> includes_js (finalDiagnosis demoReview) (js ''not specified'')"
    "differentials demoReview \<noteq> []"
    by (simp_all add: demoReview_def includes_js_def js_def)
  have m0: "CallAssessDifferentials (finalDiagnosis demoReview) (map text_entry (differentials demoReview))
       \<in> set (snd (fetchTeachingData000 demoEnv demoReview))"
    using g by (simp add: fetchTeachingData000_def c e)
  have m1: "CallAssessDifferentials (finalDiagnosis demoReview) (map text_entry (differentials demoReview))
       \<in> set (snd (fetchTeaching001 demoEnv demoReview))"
    using g by (simp add: fetchTeaching001_def Let_def c e)
  have f: "differentials demoReview ! 1 =
      \<lparr>id_entry = js ''b2'', text_entry = js ''Sepsis'', relevanceScore = None\<rparr>"
    by (simp add: demoReview_def)
  have l: "(1::nat) < length (differentials demoReview)"
    by (simp add: demoReview_def)
  show ?thesis
    using c e c' m0 m1 l f
      C5_merge_positional_amended [OF e, where points = "[]" and e = TransportFailure]
      C5_merge_positional_amended [OF e', where points = "[]" and e = TransportFailure]
    by (simp add: Let_def)
qed

text \<open>
  Claim C5 as stated, in the second variant.  The session has the three
  differentials Pneumonia, Sepsis and PE; the request for the teaching points fails
  and the scoring returns 40, 90 and 70.  The scoring request is made and succeeds,
  and no entry is given a score.
\<close>

theorem C5_scores_discarded:
  "assessDifferentials pointsDownEnv (finalDiagnosis demoReview) (map text_entry (differentials demoReview))
     = Inr [Some 40, Some 90, Some 70]
   \<and> differentials demoReview \<noteq> []
   \<and> CallAssessDifferentials (finalDiagnosis demoReview) (map text_entry (differentials demoReview))
       \<in> set (snd (fetchTeaching001 pointsDownEnv demoReview))
   \<and> differentials (fst (fetchTeaching001 pointsDownEnv demoReview)) = differentials demoReview
   \<and> relevanceScore (differentials (fst (fetchTeaching001 pointsDownEnv demoReview)) ! 1) = None"
  by (simp add: fetchTeaching001_def getTeachingPoints_def assessDifferentials_def
      textOrEmptyArray_def pointsDownEnv_def demoReview_def initSession_def js_def Let_def)

section \<open>The service functions\<close>

text \<open>
  Claim C7, as the code has it.  Without an API key \<open>getTeachingPoints\<close> returns the
  empty list and \<open>assessDifferentials\<close> one zero for each differential; so they do
  when \<^verbatim>\<open>JSON.parse\<close> throws on the text of the response.  A text that parses is
  returned as it was parsed, whatever its length, and a response without text is
  read as \<^verbatim>\<open>[]\<close>.  When the request itself fails, each function rejects: the
  failure is raised to the caller.
\<close>

theorem C7_service_failures_amended:
  "(apiKey env = [] \<longrightarrow>
      getTeachingPoints env d lvl = Inr []
      \<and> assessDifferentials env d ds = Inr (replicate (length ds) (Some 0)))
   \<and> (apiKey env \<noteq> [] \<and> generatePoints env d lvl = Inr resp
        \<and> parsePoints env (textOrEmptyArray resp) = None \<longrightarrow>
      getTeachingPoints env d lvl = Inr [])
   \<and> (apiKey env \<noteq> [] \<and> generateScores env d ds = Inr resp
        \<and> parseScores env (textOrEmptyArray resp) = None \<longrightarrow>
      assessDifferentials env d ds = Inr (replicate (length ds) (Some 0)))
   \<and> (apiKey env \<noteq> [] \<and> generatePoints env d lvl = Inr resp
        \<and> parsePoints env (textOrEmptyArray resp) = Some points \<longrightarrow>
      getTeachingPoints env d lvl = Inr points)
   \<and> (apiKey env \<noteq> [] \<and> generateScores env d ds = Inr resp
        \<and> parseScores env (textOrEmptyArray resp) = Some scores \<longrightarrow>
      assessDifferentials env d ds = Inr scores)
   \<and> textOrEmptyArray None = js ''[]'' \<and> textOrEmptyArray (Some []) = js ''[]''
   \<and> (apiKey env \<noteq> [] \<and> generatePoints env d lvl = Inl e \<longrightarrow>
      getTeachingPoints env d lvl = Inl e)
   \<and> (apiKey env \<noteq> [] \<and> generateScores env d ds = Inl e \<longrightarrow>
      assessDifferentials env d ds = Inl e)"
  by (simp add: getTeachingPoints_def assessDifferentials_def textOrEmptyArray_def
      map_replicate_const)

theorem C7_service_failures_witness:
  "apiKey noKeyEnv = []
   \<and> getTeachingPoints noKeyEnv (js ''Sepsis'') MS3 = Inr []
   \<and> assessDifferentials noKeyEnv (js ''Sepsis'') [js ''PE'', js ''Flu''] = Inr [Some 0, Some 0]
   \<and> apiKey garbledEnv \<noteq> []
   \<and> generatePoints garbledEnv (js ''Sepsis'') MS3 = Inr (Some (js ''<html>''))
   \<and> parsePoints garbledEnv (textOrEmptyArray (Some (js ''<html>''))) = None
   \<and> getTeachingPoints garbledEnv (js ''Sepsis'') MS3 = Inr []
   \<and> assessDifferentials garbledEnv (js ''Sepsis'') [js ''PE'', js ''Flu''] = Inr [Some 0, Some 0]
   \<and> apiKey downEnv \<noteq> []
   \<and> generateScores downEnv (js ''Sepsis'') [js ''PE'', js ''Flu''] = Inl TransportFailure
   \<and> assessDifferentials downEnv (js ''Sepsis'') [js ''PE'', js ''Flu''] = Inl TransportFailure
   \<and> apiKey demoEnv \<noteq> []
   \<and> generateScores demoEnv (js ''Sepsis'') [js ''PE'', js ''Flu''] = Inr (Some (js ''[40,90,70]''))
   \<and> parseScores demoEnv (textOrEmptyArray (Some (js ''[40,90,70]''))) = Some [Some 40, Some 90, Some 70]
   \<and> assessDifferentials demoEnv (js ''Sepsis'') [js ''PE'', js ''Flu''] = Inr [Some 40, Some 90, Some 70]"
proof -
  have k: "apiKey noKeyEnv = []" "apiKey garbledEnv \<noteq> []" "apiKey downEnv \<noteq> []"
    "apiKey demoEnv \<noteq> []"
    by (simp_all add: noKeyEnv_def garbledEnv_def downEnv_def demoEnv_def js_def)
  have g: "generatePoints garbledEnv (js ''Sepsis'') MS3 = Inr (Some (js ''<html>''))"
    "generateScores garbledEnv (js ''Sepsis'') [js ''PE'', js ''Flu''] = Inr (Some (js ''<html>''))"
    "parsePoints garbledEnv (textOrEmptyArray (Some (js ''<html>''))) = None"
    "parseScores garbledEnv (textOrEmptyArray (Some (js ''<html>''))) = None"
    "generateScores downEnv (js ''Sepsis'') [js ''PE'', js ''Flu''] = Inl TransportFailure"
    "generateScores demoEnv (js ''Sepsis'') [js ''PE'', js ''Flu''] = Inr (Some (js ''[40,90,70]''))"
    "parseScores demoEnv (textOrEmptyArray (Some (js ''[40,90,70]''))) = Some [Some 40, Some 90, Some 70]"
    by (simp_all add: garbledEnv_def downEnv_def demoEnv_def textOrEmptyArray_def js_def)
  show ?thesis
    using k g
      C7_service_failures_amended [where env = noKeyEnv and d = "js ''Sepsis''" and lvl = MS3
        and ds = "[js ''PE'', js ''Flu'']"]
      C7_service_failures_amended [where env = garbledEnv and d = "js ''Sepsis''" and lvl = MS3
        and ds = "[js ''PE'', js ''Flu'']" and resp = "Some (js ''<html>'')"]
      C7_service_failures_amended [where env = downEnv and d = "js ''Sepsis''" and lvl = MS3
        and ds = "[js ''PE'', js ''Flu'']" and e = TransportFailure]
      C7_service_failures_amended [where env = demoEnv and d = "js ''Sepsis''" and lvl = MS3
        and ds = "[js ''PE'', js ''Flu'']" and resp = "Some (js ''[40,90,70]'')"
        and scores = "[Some 40, Some 90, Some 70]"]
    by (simp add: numeral_2_eq_2)
qed

text \<open>
  Claim C7 as stated, at three failures with an API key and the two differentials PE
  and Flu.  When the request fails, both functions reject.  When the response has no
  text, \<open>assessDifferentials\<close> returns the empty list, and when the response holds
  three scores it returns the three: in neither case two zeros.
\<close>

theorem C7_failures_not_contained:
  "getTeachingPoints downEnv (js ''Pneumonia'') MS3 = Inl TransportFailure
   \<and> assessDifferentials downEnv (js ''Pneumonia'') [js ''PE'', js ''Flu''] = Inl TransportFailure
   \<and> generateScores noTextEnv (js ''Pneumonia'') [js ''PE'', js ''Flu''] = Inr None
   \<and> assessDifferentials noTextEnv (js ''Pneumonia'') [js ''PE'', js ''Flu''] = Inr []
   \<and> assessDifferentials demoEnv (js ''Pneumonia'') [js ''PE'', js ''Flu'']
       = Inr [Some 40, Some 90, Some 70]"
  by (simp add: getTeachingPoints_def assessDifferentials_def textOrEmptyArray_def
      downEnv_def noTextEnv_def demoEnv_def js_def)

section \<open>Reset\<close>

text \<open>
  Claim C9, as the code has it.  Reset clears the flags \<open>isCaseLoaded\<close> and
  \<open>reviewMode\<close>, the case text, the diagnosis and the teaching points; the first
  variant also empties the chunks and sets the visible count to zero.  In both
  variants reset leaves the four entry lists as they are: the next start of a case
  empties them.
\<close>

theorem C9_reset_amended:
  "reset000 s = s\<lparr>isCaseLoaded := False, reviewMode := False, caseText := [], finalDiagnosis := [],
      teachingPoints := [], chunks := [], visibleIndex := 0\<rparr>
   \<and> differentials (reset000 s) = differentials s \<and> labs (reset000 s) = labs s
   \<and> diagnostics (reset000 s) = diagnostics s \<and> treatments (reset000 s) = treatments s
   \<and> isCaseLoaded (reset001 s) = False \<and> reviewMode (reset001 s) = False
   \<and> caseText (reset001 s) = [] \<and> finalDiagnosis (reset001 s) = []
   \<and> teachingPoints (reset001 s) = []
   \<and> differentials (reset001 s) = differentials s \<and> labs (reset001 s) = labs s
   \<and> diagnostics (reset001 s) = diagnostics s \<and> treatments (reset001 s) = treatments s
   \<and> differentials (startCase000 s) = (if trim (caseText s) = [] then differentials s else [])
   \<and> labs (startCase000 s) = (if trim (caseText s) = [] then labs s else [])
   \<and> diagnostics (startCase000 s) = (if trim (caseText s) = [] then diagnostics s else [])
   \<and> treatments (startCase000 s) = (if trim (caseText s) = [] then treatments s else [])
   \<and> differentials (startCase001 s) = (if trim (caseText s) = [] then differentials s else [])
   \<and> labs (startCase001 s) = (if trim (caseText s) = [] then labs s else [])
   \<and> diagnostics (startCase001 s) = (if trim (caseText s) = [] then diagnostics s else [])
   \<and> treatments (startCase001 s) = (if trim (caseText s) = [] then treatments s else [])"
  by (simp add: reset000_def reset001_def startCase000_def startCase001_def)

text \<open>
  After a case is started on the text \<^verbatim>\<open>Fever.\<close> and the differential
  \<^verbatim>\<open>Sepsis\<close> is entered, reset leaves that entry in the list, in both variants.
\<close>

theorem C9_reset_keeps_entries:
  "differentials (reset000 ((startCase000 (handleCaseUpload (js ''Fever.'') initSession))
      \<lparr>differentials := addEntry (js ''k3x9'') (js ''Sepsis'') []\<rparr>)) \<noteq> []
   \<and> differentials (reset001 ((startCase001 (handleCaseUpload (js ''Fever.'') initSession))
      \<lparr>differentials := addEntry (js ''k3x9'') (js ''Sepsis'') []\<rparr>)) \<noteq> []"
  by (simp add: reset000_def reset001_def addEntry_def trim_def char_defs)

section \<open>Extraction\<close>

lemma lineMatch_greedy:
  assumes "lineMatch l = Some cap" and "10 \<notin> set l"
  shows "\<not> isSep (hd cap) \<or> length cap = 1"
proof -
  from assms(1) obtain pre s' where p: "trim l = pre @ s'"
    "execCapture markerRx valueRx s' = Some cap"
    unfolding lineMatch_def using searchCapture_Some by blast
  have "set s' \<subseteq> set l" using p(1) set_trim [of l] by auto
  with assms(2) have "10 \<notin> set s'" by auto
  from execCapture_marker_greedy [OF p(2) this] show ?thesis .
qed

lemma filter_marker_lines:
  "filter (\<lambda>l. lineMatch l \<noteq> None) (splitNL txt) = filter hasMarker_spec (splitNL txt)"
proof (rule filter_cong [OF refl])
  fix l assume "l \<in> set (splitNL txt)"
  then have "10 \<notin> set l" by (rule splitNL_no_NL)
  then show "(lineMatch l \<noteq> None) = hasMarker_spec l" by (rule lineMatch_iff_hasMarker_spec)
qed

lemma extractLoop_all:
  assumes "list_ex (\<lambda>l. lineMatch l \<noteq> None) lines"
  shows "extractLoop lines (length lines) =
     trim (the (lineMatch (last (filter (\<lambda>l. lineMatch l \<noteq> None) lines))))"
  using extractLoop_last [of "length lines" lines] assms by simp

text \<open>
  Claim C2.  When some line of the narrative has the marker, the extractor returns
  the trimmed remainder of the last such line: the trimmed line is a prefix in which
  no marker starts, the words \<^verbatim>\<open>Final Diagnosis\<close> in any case, a separator of
  one or more colons and white space characters, and the remainder \<open>cap\<close>, which
  is not empty; the separator is as long as it can be (the remainder starts with no
  separator character, or it is the last character of the line); and the result is
  \<open>cap\<close> trimmed.
\<close>

theorem C2_extract_last_marker_line:
  assumes "list_ex hasMarker_spec (splitNL txt)"
  shows "\<exists>line pre m sep cap.
       line = last (filter hasMarker_spec (splitNL txt))
     \<and> trim line = pre @ m @ sep @ cap
     \<and> (\<forall>k < length pre. \<not> markerAt_spec (drop k (trim line)))
     \<and> map canon m = map canon (js ''Final Diagnosis'')
     \<and> sep \<noteq> [] \<and> list_all isSep sep
     \<and> cap \<noteq> [] \<and> (\<not> isSep (hd cap) \<or> length cap = 1)
     \<and> extractFinalDiagnosis txt = trim cap"
proof -
  let ?lines = "splitNL txt"
  let ?line = "last (filter hasMarker_spec ?lines)"
  from assms have ne: "filter hasMarker_spec ?lines \<noteq> []"
    by (auto simp: list_ex_iff filter_empty_conv)
  then have "?line \<in> set (filter hasMarker_spec ?lines)" by (rule last_in_set)
  then have mem: "?line \<in> set ?lines" and hm: "hasMarker_spec ?line" by auto
  from mem have nl: "10 \<notin> set ?line" by (rule splitNL_no_NL)
  with hm obtain cap where cap: "lineMatch ?line = Some cap"
    using lineMatch_iff_hasMarker_spec by auto
  have "list_ex (\<lambda>l. lineMatch l \<noteq> None) ?lines"
    using mem cap by (auto simp: list_ex_iff)
  from extractLoop_all [OF this]
  have "extractLoop ?lines (length ?lines) = trim (the (lineMatch ?line))"
    by (simp only: filter_marker_lines)
  then have x: "extractFinalDiagnosis txt = trim cap"
    by (simp add: extractFinalDiagnosis_def cap)
  from lineMatch_shape [OF cap nl] obtain pre m sep where
    "trim ?line = pre @ m @ sep @ cap" "map canon m = map canon (js ''Final Diagnosis'')"
    "sep \<noteq> []" "list_all isSep sep" "cap \<noteq> []"
    "\<forall>k < length pre. \<not> markerAt_spec (drop k (trim ?line))"
    by blast
  with lineMatch_greedy [OF cap nl] x show ?thesis by blast
qed

lemma twoMarkers_lines:
  "splitNL twoMarkers = [js ''Final Diagnosis: Flu'', js ''Fever.'', js ''final diagnosis:  Sepsis '']"
  by (simp add: twoMarkers_def js_def)

lemma twoMarkers_marked:
  "hasMarker_spec (js ''Final Diagnosis: Flu'')" "\<not> hasMarker_spec (js ''Fever.'')"
  "hasMarker_spec (js ''final diagnosis:  Sepsis '')"
  by (simp_all add: hasMarker_spec_def markerAt_spec_def trim_def char_defs)

lemma twoMarkers_extract: "extractFinalDiagnosis twoMarkers = js ''Sepsis''"
  by (simp add: extractFinalDiagnosis_def twoMarkers_lines lineMatch_def execCapture_def
      trim_def markerRx_def valueRx_def litCI_def char_defs numeral_3_eq_3)

theorem C2_extract_last_marker_line_witness:
  "list_ex hasMarker_spec (splitNL twoMarkers)
   \<and> last (filter hasMarker_spec (splitNL twoMarkers)) = js ''final diagnosis:  Sepsis ''
   \<and> extractFinalDiagnosis twoMarkers = js ''Sepsis''
   \<and> (\<exists>pre m sep cap.
         trim (js ''final diagnosis:  Sepsis '') = pre @ m @ sep @ cap
       \<and> (\<forall>k < length pre. \<not> markerAt_spec (drop k (trim (js ''final diagnosis:  Sepsis ''))))
       \<and> map canon m = map canon (js ''Final Diagnosis'')
       \<and> sep \<noteq> [] \<and> list_all isSep sep
       \<and> cap \<noteq> [] \<and> (\<not> isSep (hd cap) \<or> length cap = 1)
       \<and> js ''Sepsis'' = trim cap)"
proof -
  have h: "list_ex hasMarker_spec (splitNL twoMarkers)"
    by (simp add: twoMarkers_lines twoMarkers_marked)
  have l: "last (filter hasMarker_spec (splitNL twoMarkers)) = js ''final diagnosis:  Sepsis ''"
    by (simp add: twoMarkers_lines twoMarkers_marked)
  show ?thesis
    using h l twoMarkers_extract C2_extract_last_marker_line [OF h]
    by simp
qed

section \<open>A narrative without the marker\<close>





section \<open>Trimming and searching\<close>

lemma trim_Nil_iff: "trim s = [] \<longleftrightarrow> list_all isWs s"
proof -
  have "trim s = [] \<longleftrightarrow> (\<forall>x \<in> set (dropWhile isWs s). isWs x)"
    by (simp add: trim_def dropWhile_eq_Nil_conv)
  also have "\<dots> \<longleftrightarrow> dropWhile isWs s = []"
  proof
    assume a: "\<forall>x \<in> set (dropWhile isWs s). isWs x"
    show "dropWhile isWs s = []"
    proof (rule ccontr)
      assume n: "dropWhile isWs s \<noteq> []"
      then have "\<not> isWs (hd (dropWhile isWs s))" by (rule hd_dropWhile)
      moreover from n have "hd (dropWhile isWs s) \<in> set (dropWhile isWs s)" by simp
      ultimately show False using a by blast
    qed
  qed (auto dest: set_dropWhileD)
  also have "\<dots> \<longleftrightarrow> list_all isWs s"
    by (simp add: dropWhile_eq_Nil_conv list_all_iff)
  finally show ?thesis .
qed

lemma trim_idem: "trim (trim s) = trim s"
proof (cases "trim s = []")
  case True
  moreover have "trim [] = []" by (simp add: trim_def)
  ultimately show ?thesis by simp
next
  case False
  let ?a = "dropWhile isWs s"
  let ?b = "dropWhile isWs (rev ?a)"
  from False have b: "?b \<noteq> []" by (simp add: trim_def)
  then have a: "?a \<noteq> []" by (cases "dropWhile isWs s") simp_all
  have "last ?b = last (rev ?a)"
    using b by (metis (no_types) append_Nil2 dropWhile_eq_Nil_conv last_appendR
        takeWhile_dropWhile_id)
  also have "\<dots> = hd ?a" using a by (simp add: last_rev)
  finally have "\<not> isWs (last ?b)" using a by (simp add: hd_dropWhile)
  then have "\<not> isWs (hd (rev ?b))" using b by (simp add: hd_rev)
  then have "dropWhile isWs (rev ?b) = rev ?b" using b by (cases "rev ?b") auto
  then show ?thesis by (simp add: trim_def)
qed

lemma isTerm_not_isWs: "isTerm c \<Longrightarrow> \<not> isWs c"
  by (auto simp: isTerm_def isWs_def)

lemma search_Some:
  "search r s = Some (p, n) \<Longrightarrow>
     p \<le> length s \<and> (\<exists>e \<in> set (ends r (drop p s)). n = length (drop p s) - length e)"
proof (induction s arbitrary: p)
  case Nil
  then show ?case by (auto split: list.splits)
next
  case (Cons c cs)
  show ?case
  proof (cases "ends r (c # cs)")
    case Nil
    with Cons.prems obtain p' where p': "search r cs = Some (p', n)" "p = Suc p'"
      by auto
    from Cons.IH [OF p'(1)] p'(2) show ?thesis by simp
  next
    case (Cons e es)
    with Cons.prems have "p = 0" "n = length (c # cs) - length e" by auto
    with Cons show ?thesis by simp
  qed
qed

lemma search_None: "search r s = None \<longleftrightarrow> (\<forall>k \<le> length s. ends r (drop k s) = [])"
proof (induction s)
  case Nil
  then show ?case by (auto split: list.splits)
next
  case (Cons c cs)
  have "(\<forall>k \<le> length (c # cs). ends r (drop k (c # cs)) = [])
     \<longleftrightarrow> ends r (c # cs) = [] \<and> (\<forall>k \<le> length cs. ends r (drop k cs) = [])"
  proof
    assume h: "\<forall>k \<le> length (c # cs). ends r (drop k (c # cs)) = []"
    then have "ends r (drop 0 (c # cs)) = []" by blast
    moreover have "ends r (drop k cs) = []" if "k \<le> length cs" for k
      using h that by (metis Suc_le_mono drop_Suc_Cons length_Cons)
    ultimately show "ends r (c # cs) = [] \<and> (\<forall>k \<le> length cs. ends r (drop k cs) = [])"
      by simp
  next
    assume h: "ends r (c # cs) = [] \<and> (\<forall>k \<le> length cs. ends r (drop k cs) = [])"
    show "\<forall>k \<le> length (c # cs). ends r (drop k (c # cs)) = []"
    proof (intro allI impI)
      fix k assume "k \<le> length (c # cs)"
      then show "ends r (drop k (c # cs)) = []" using h by (cases k) auto
    qed
  qed
  with Cons.IH show ?case by (auto split: list.splits)
qed

text \<open>Every match that \<open>matchAll\<close> returns is what the pattern consumed at some end piece of the text.\<close>

lemma matchAll_mem:
  "m \<in> set (matchAll r s) \<Longrightarrow>
     \<exists>s' e. suffix s' s \<and> e \<in> set (ends r s') \<and> s' = m @ e"
proof (induction r s rule: matchAll.induct)
  case (1 r s)
  have unf: "matchAll r s = (case search r s of None \<Rightarrow> []
     | Some (p, n) \<Rightarrow> take n (drop p s) #
         (if n = 0 then (if p < length s then matchAll r (drop (Suc p) s) else [])
          else matchAll r (drop (p + n) s)))"
    by (rule matchAll.simps)
  from "1.prems" obtain p n where pn: "search r s = Some (p, n)"
    unfolding unf by (cases "search r s") auto
  from search_Some [OF pn] obtain e where e: "p \<le> length s" "e \<in> set (ends r (drop p s))"
    "n = length (drop p s) - length e" by blast
  from e(2) have suf: "suffix e (drop p s)" by (rule ends_suffix)
  then have here: "drop p s = take n (drop p s) @ e"
    using e(3) by (metis append_eq_conv_conj length_append add_diff_cancel_right' suffix_def)
  from "1.prems" have "m \<in> set (take n (drop p s) #
         (if n = 0 then (if p < length s then matchAll r (drop (Suc p) s) else [])
          else matchAll r (drop (p + n) s)))"
    unfolding unf by (simp only: pn option.case prod.case)
  then consider "m = take n (drop p s)"
    | "n = 0" "p < length s" "m \<in> set (matchAll r (drop (Suc p) s))"
    | "n \<noteq> 0" "m \<in> set (matchAll r (drop (p + n) s))"
    by (cases "n = 0"; cases "p < length s") (auto simp del: matchAll.simps)
  then show ?case
  proof cases
    case 1
    have "suffix (drop p s) s" by (rule suffix_drop)
    with e(2) here 1 show ?thesis by blast
  next
    case 2
    from "1.IH"(1) [OF pn refl 2(1,2,3)] obtain s' e' where
      "suffix s' (drop (Suc p) s)" "e' \<in> set (ends r s')" "s' = m @ e'" by blast
    moreover have "suffix (drop (Suc p) s) s" by (rule suffix_drop)
    ultimately show ?thesis using suffix_order.trans by blast
  next
    case 3
    from "1.IH"(2) [OF pn refl 3(1,2)] obtain s' e' where
      "suffix s' (drop (p + n) s)" "e' \<in> set (ends r s')" "s' = m @ e'" by blast
    moreover have "suffix (drop (p + n) s) s" by (rule suffix_drop)
    ultimately show ?thesis using suffix_order.trans by blast
  qed
qed

section \<open>Sentences and chunks\<close>

lemma ends_sentence_term:
  assumes "e \<in> set (ends (Cat (PlusC notTerm) (Cat (PlusC isTerm) y)) s)" and "s = m @ e"
  shows "list_ex isTerm m"
proof -
  from assms(1) obtain e1 e2 where e: "e1 \<in> set (ends (PlusC notTerm) s)"
    "e2 \<in> set (ends (PlusC isTerm) e1)" "e \<in> set (ends y e2)"
    by (auto simp del: ends.simps(3))
  from e(1) obtain m1 where m1: "s = m1 @ e1" by (auto simp: ends_PlusC_iff simp del: ends.simps(3))
  from e(2) obtain m2 where m2: "e1 = m2 @ e2" "m2 \<noteq> []" "list_all isTerm m2"
    by (auto simp: ends_PlusC_iff simp del: ends.simps(3))
  from ends_suffix [OF e(3)] obtain m3 where m3: "e2 = m3 @ e" by (auto simp: suffix_def)
  from m1 m2(1) m3 assms(2) have "m = m1 @ m2 @ m3" by simp
  moreover from m2(2,3) have "list_ex isTerm m2" by (cases m2) auto
  ultimately show ?thesis by (auto simp: list_ex_iff)
qed

lemma matchAll_sentence_term:
  assumes "m \<in> set (matchAll (Cat (PlusC notTerm) (Cat (PlusC isTerm) y)) s)"
  shows "list_ex isTerm m \<and> set m \<subseteq> set s"
proof -
  from matchAll_mem [OF assms] obtain s' e where s': "suffix s' s"
    "e \<in> set (ends (Cat (PlusC notTerm) (Cat (PlusC isTerm) y)) s')" "s' = m @ e" by blast
  from ends_sentence_term [OF s'(2,3)] have "list_ex isTerm m" .
  moreover from s'(1,3) have "set m \<subseteq> set s" by (auto simp: suffix_def)
  ultimately show ?thesis by simp
qed

lemma term_nonblank: "list_ex isTerm m \<Longrightarrow> \<not> list_all isWs m"
  by (auto simp: list_ex_iff list_all_iff dest: isTerm_not_isWs)

lemma sentences000_nonblank:
  assumes "\<not> list_all isWs t"
  shows "list_all (\<lambda>m. \<not> list_all isWs m) (sentences000 t)"
proof (cases "matchAll sentRx000 t")
  case Nil
  with assms show ?thesis by (simp add: sentences000_def)
next
  case (Cons a as)
  then have "sentences000 t = matchAll sentRx000 t" by (simp add: sentences000_def)
  then show ?thesis
    using matchAll_sentence_term term_nonblank
    unfolding sentRx000_def list_all_iff by metis
qed

lemma sentences001_nonblank:
  assumes "\<not> list_all isWs t"
  shows "list_all (\<lambda>m. \<not> list_all isWs m) (sentences001 t)"
proof (cases "matchAll sentRx001 t")
  case Nil
  with assms show ?thesis by (simp add: sentences001_def)
next
  case (Cons a as)
  then have "sentences001 t = matchAll sentRx001 t" by (simp add: sentences001_def)
  then show ?thesis
    using matchAll_sentence_term term_nonblank
    unfolding sentRx001_def list_all_iff by metis
qed

lemma group_nonblank:
  assumes "i < length ss" and "list_all (\<lambda>m. \<not> list_all isWs m) ss"
  shows "trim (concat (slice i (i + 5) ss)) \<noteq> []"
proof -
  have "drop i ss = ss ! i # drop (Suc i) ss" using assms(1) by (simp add: Cons_nth_drop_Suc)
  then have "ss ! i \<in> set (slice i (i + 5) ss)" by (simp add: slice_def)
  moreover have "\<not> list_all isWs (ss ! i)" using assms by (simp add: list_all_length)
  ultimately have "\<not> list_all isWs (concat (slice i (i + 5) ss))"
    by (auto simp: list_all_iff)
  then show ?thesis by (simp add: trim_Nil_iff)
qed

lemma chunkLoop_same:
  "list_all (\<lambda>m. \<not> list_all isWs m) ss \<Longrightarrow> chunkLoop000 i ss = chunkLoop001 i ss"
proof (induction i ss rule: chunkLoop000.induct)
  case (1 i ss)
  show ?case
  proof (cases "i < length ss")
    case True
    from group_nonblank [OF True "1.prems"] "1.IH" [OF True refl "1.prems"] True
    show ?thesis by (subst chunkLoop000.simps, subst chunkLoop001.simps) (simp add: Let_def)
  next
    case False
    then show ?thesis by (subst chunkLoop000.simps, subst chunkLoop001.simps) simp
  qed
qed

lemma chunkLoop001_trimmed:
  "list_all (\<lambda>m. \<not> list_all isWs m) ss \<Longrightarrow>
     list_all (\<lambda>c. c \<noteq> [] \<and> trim c = c) (chunkLoop001 i ss)"
proof (induction i ss rule: chunkLoop001.induct)
  case (1 i ss)
  show ?case
  proof (cases "i < length ss")
    case True
    from group_nonblank [OF True "1.prems"] "1.IH" [OF True "1.prems"] True
    show ?thesis by (subst chunkLoop001.simps) (simp add: trim_idem)
  next
    case False
    then show ?thesis by (subst chunkLoop001.simps) simp
  qed
qed

lemma chunkLoop001_nonempty: "i < length ss \<Longrightarrow> chunkLoop001 i ss \<noteq> []"
  by (subst chunkLoop001.simps) simp

lemma chunkLoop001_single: "chunkLoop001 0 [t] = [trim t]"
  by (subst chunkLoop001.simps, subst chunkLoop001.simps) (simp add: slice_def)

lemma no_term_no_sentence:
  assumes "\<not> list_ex isTerm t"
  shows "matchAll (Cat (PlusC notTerm) (Cat (PlusC isTerm) y)) t = []"
proof (rule ccontr)
  assume "matchAll (Cat (PlusC notTerm) (Cat (PlusC isTerm) y)) t \<noteq> []"
  then obtain m where "m \<in> set (matchAll (Cat (PlusC notTerm) (Cat (PlusC isTerm) y)) t)"
    by (meson last_in_set)
  from matchAll_sentence_term [OF this] assms show False
    by (auto simp: list_ex_iff)
qed

text \<open>The paragraph split loses no text but white space.\<close>

lemma ends_paraSep_ws:
  assumes "e \<in> set (ends paraSepRx s)"
  shows "list_all isWs (take (length s - length e) s)"
proof -
  from assms obtain c cs where s: "s = c # cs" "isNL c"
    and "e \<in> set (ends (Cat (StarC isWs) (Cls isNL)) cs)"
    by (cases s) (auto simp: paraSepRx_def split: if_splits)
  then obtain e1 where e1: "e1 \<in> set (runs isWs cs)" "e \<in> set (ends (Cls isNL) e1)"
    by auto
  from e1(1) obtain m where m: "cs = m @ e1" "list_all isWs m" by (auto simp: runs_iff)
  from e1(2) obtain d where d: "e1 = d # e" "isNL d" by (cases e1) (auto split: if_splits)
  have "s = (c # m @ [d]) @ e" using s(1) m(1) d(1) by simp
  then have "take (length s - length e) s = c # m @ [d]" by simp
  moreover have "isWs c" "isWs d" using s(2) d(2) by (simp_all add: isNL_def isWs_def)
  ultimately show ?thesis using m(2) by simp
qed

lemma splitLoop_covers:
  "\<forall>s' e. e \<in> set (ends r s') \<longrightarrow> list_all isWs (take (length s' - length e) s') \<Longrightarrow>
   p \<le> q \<Longrightarrow> \<not> list_all isWs (drop p s) \<Longrightarrow>
     list_ex (\<lambda>pc. \<not> list_all isWs pc) (splitLoop r s p q)"
proof (induction r s p q rule: splitLoop.induct)
  case (1 r s p q)
  note A = "1.prems"(1)
  note pq = "1.prems"(2)
  note nb = "1.prems"(3)
  note unf = splitLoop.simps [of r s p q]
  show ?case
  proof (cases "q < length s")
    case False
    with nb show ?thesis by (subst unf) simp
  next
    case True
    show ?thesis
    proof (cases "ends r (drop q s)")
      case Nil
      from "1.IH"(1) [OF True Nil A _ nb] pq have
        "list_ex (\<lambda>pc. \<not> list_all isWs pc) (splitLoop r s p (Suc q))" by simp
      with True Nil show ?thesis by (subst unf) simp
    next
      case (Cons e es)
      let ?en = "length s - length e"
      show ?thesis
      proof (cases "?en = p")
        case same: True
        from "1.IH"(2) [OF True Cons same A _ nb] pq have
          "list_ex (\<lambda>pc. \<not> list_all isWs pc) (splitLoop r s p (Suc q))" by simp
        with True Cons same show ?thesis by (subst unf) simp
      next
        case diff: False
        have mem: "e \<in> set (ends r (drop q s))" using Cons by simp
        then have suf: "suffix e (drop q s)" by (rule ends_suffix)
        then have e: "e = drop ?en s"
          by (metis append_eq_conv_conj length_append add_diff_cancel_right' suffix_def suffix_drop
              suffix_order.trans)
        have split1: "drop p s = slice p q s @ drop q s"
        proof -
          have "drop (q - p) (drop p s) = drop q s" using pq by simp
          then show ?thesis by (metis append_take_drop_id slice_def)
        qed
        have split2: "drop q s = take (length (drop q s) - length e) (drop q s) @ e"
          using suf by (metis append_eq_conv_conj length_append add_diff_cancel_right' suffix_def)
        have ws: "list_all isWs (take (length (drop q s) - length e) (drop q s))"
          using A mem by blast
        show ?thesis
        proof (cases "list_all isWs (slice p q s)")
          case False
          with True Cons diff show ?thesis by (subst unf) simp
        next
          case all: True
          with nb split1 have "\<not> list_all isWs (drop q s)" by simp
          with split2 ws have "\<not> list_all isWs e" by (metis list_all_append)
          then have "\<not> list_all isWs (drop ?en s)" using e by simp
          from "1.IH"(3) [OF True Cons diff A le_refl this]
          have "list_ex (\<lambda>pc. \<not> list_all isWs pc) (splitLoop r s ?en ?en)" .
          with True Cons diff show ?thesis by (subst unf) simp
        qed
      qed
    qed
  qed
qed

lemma paragraphs001_nonempty:
  assumes "trim t \<noteq> []"
  shows "paragraphs001 t \<noteq> []"
proof -
  from assms have nb: "\<not> list_all isWs t" by (simp add: trim_Nil_iff)
  then have "t \<noteq> []" by auto
  then have sp: "splitRx paraSepRx t = splitLoop paraSepRx t 0 0" by (simp add: splitRx_def)
  have "\<forall>s' e. e \<in> set (ends paraSepRx s') \<longrightarrow>
      list_all isWs (take (length s' - length e) s')"
    using ends_paraSep_ws by blast
  from splitLoop_covers [OF this, of 0 0 t] nb
  have "list_ex (\<lambda>pc. \<not> list_all isWs pc) (splitRx paraSepRx t)" by (simp add: sp)
  then obtain pc where "pc \<in> set (splitRx paraSepRx t)" "\<not> list_all isWs pc"
    by (auto simp: list_ex_iff)
  then have "pc \<in> set (paragraphs001 t)" by (simp add: paragraphs001_def trim_Nil_iff)
  then show ?thesis by auto
qed

lemma paragraphs001_nonblank: "p \<in> set (paragraphs001 t) \<Longrightarrow> \<not> list_all isWs p"
  by (simp add: paragraphs001_def trim_Nil_iff)

lemma chunkPara001_nonempty: "chunkPara001 t \<noteq> []"
proof -
  have "sentences001 t \<noteq> []"
    by (auto simp: sentences001_def split: list.splits)
  then show ?thesis by (simp add: chunkPara001_def chunkLoop001_nonempty del: chunkLoop001.simps)
qed

lemma chunkPara001_trimmed:
  "\<not> list_all isWs t \<Longrightarrow> list_all (\<lambda>c. c \<noteq> [] \<and> trim c = c) (chunkPara001 t)"
  unfolding chunkPara001_def by (rule chunkLoop001_trimmed [OF sentences001_nonblank])

lemma chunks001_nonempty:
  assumes "trim t \<noteq> []"
  shows "chunks001 t \<noteq> []"
proof -
  from paragraphs001_nonempty [OF assms] obtain p where "p \<in> set (paragraphs001 t)"
    by (meson last_in_set)
  then show ?thesis using chunkPara001_nonempty by (auto simp: chunks001_def)
qed

lemma chunks001_trimmed: "list_all (\<lambda>c. c \<noteq> [] \<and> trim c = c) (chunks001 t)"
  unfolding list_all_iff
proof
  fix c assume "c \<in> set (chunks001 t)"
  then obtain p where p: "p \<in> set (paragraphs001 t)" "c \<in> set (chunkPara001 p)"
    by (auto simp: chunks001_def)
  from p(1) have "\<not> list_all isWs p" by (rule paragraphs001_nonblank)
  from chunkPara001_trimmed [OF this] p(2) show "c \<noteq> [] \<and> trim c = c"
    by (simp add: list_all_iff)
qed

text \<open>
  For a text \<open>t\<close> that is not blank, the sentence grouping of either variant (on
  the stripped text in the first, on a paragraph in the second) returns at least one
  chunk; every chunk is non-empty and is its own trimmed form; and when the sentence
  pattern finds nothing in \<open>t\<close>, as it does when \<open>t\<close> has no terminator, the
  result is the one chunk \<open>trim t\<close>.  So it is for the chunks of all paragraphs
  of a narrative \<open>t\<close> in the second variant: there is at least one, and none is
  empty.
\<close>

lemma chunks_nonempty:
  assumes "trim t \<noteq> []"
  shows "chunkText000 t \<noteq> [] \<and> chunkPara001 t \<noteq> []
     \<and> list_all (\<lambda>c. c \<noteq> [] \<and> trim c = c) (chunkText000 t)
     \<and> list_all (\<lambda>c. c \<noteq> [] \<and> trim c = c) (chunkPara001 t)
     \<and> (matchAll sentRx000 t = [] \<longrightarrow> chunkText000 t = [trim t])
     \<and> (matchAll sentRx001 t = [] \<longrightarrow> chunkPara001 t = [trim t])
     \<and> (\<not> list_ex isTerm t \<longrightarrow> chunkText000 t = [trim t] \<and> chunkPara001 t = [trim t])
     \<and> chunks001 t \<noteq> []
     \<and> list_all (\<lambda>c. c \<noteq> [] \<and> trim c = c) (chunks001 t)"
proof -
  from assms have nb: "\<not> list_all isWs t" by (simp add: trim_Nil_iff)
  have s0: "sentences000 t \<noteq> []" and s1: "sentences001 t \<noteq> []"
    by (auto simp: sentences000_def sentences001_def split: list.splits)
  have eq0: "chunkText000 t = chunkLoop001 0 (sentences000 t)"
    unfolding chunkText000_def by (rule chunkLoop_same [OF sentences000_nonblank [OF nb]])
  have a: "chunkText000 t \<noteq> []" using s0 by (simp add: eq0 chunkLoop001_nonempty)
  have b: "chunkPara001 t \<noteq> []" using s1 by (simp add: chunkPara001_def chunkLoop001_nonempty)
  have c: "list_all (\<lambda>c. c \<noteq> [] \<and> trim c = c) (chunkText000 t)"
    unfolding eq0 by (rule chunkLoop001_trimmed [OF sentences000_nonblank [OF nb]])
  have d: "list_all (\<lambda>c. c \<noteq> [] \<and> trim c = c) (chunkPara001 t)"
    unfolding chunkPara001_def by (rule chunkLoop001_trimmed [OF sentences001_nonblank [OF nb]])
  have e: "chunkText000 t = [trim t]" if "matchAll sentRx000 t = []"
    using that by (simp add: eq0 sentences000_def chunkLoop001_single del: matchAll.simps chunkLoop001.simps)
  have f: "chunkPara001 t = [trim t]" if "matchAll sentRx001 t = []"
    using that by (simp add: chunkPara001_def sentences001_def chunkLoop001_single del: matchAll.simps chunkLoop001.simps)
  have g: "matchAll sentRx000 t = [] \<and> matchAll sentRx001 t = []" if "\<not> list_ex isTerm t"
    using no_term_no_sentence [OF that] by (simp add: sentRx000_def sentRx001_def)
  from a b c d e f g chunks001_nonempty [OF assms] chunks001_trimmed [of t]
  show ?thesis by blast
qed

lemma chunks_nonempty_examples:
  "trim (js '' BP 120 over 80 '') \<noteq> []
   \<and> \<not> list_ex isTerm (js '' BP 120 over 80 '')
   \<and> chunkText000 (js '' BP 120 over 80 '') = [js ''BP 120 over 80'']
   \<and> chunkPara001 (js '' BP 120 over 80 '') = [js ''BP 120 over 80'']
   \<and> trim (js ''Fever. Cough. Rash. Pain. Chills. Sweats.'') \<noteq> []
   \<and> chunkText000 (js ''Fever. Cough. Rash. Pain. Chills. Sweats.'')
       = [js ''Fever. Cough. Rash. Pain. Chills.'', js ''Sweats.'']
   \<and> chunkText000 (js ''Fever. Cough. Rash. Pain. Chills. Sweats.'') \<noteq> []
   \<and> list_all (\<lambda>c. c \<noteq> [] \<and> trim c = c) (chunkText000 (js ''Fever. Cough. Rash. Pain. Chills. Sweats.''))
   \<and> trim (js ''Fever.'' @ [10, 10] @ js ''Cough.'') \<noteq> []
   \<and> chunks001 (js ''Fever.'' @ [10, 10] @ js ''Cough.'') = [js ''Fever.'', js ''Cough.'']
   \<and> chunks001 (js ''Fever.'' @ [10, 10] @ js ''Cough.'') \<noteq> []"
proof -
  have h1: "trim (js '' BP 120 over 80 '') \<noteq> []"
    by (simp add: trim_def char_defs)
  have n1: "\<not> list_ex isTerm (js '' BP 120 over 80 '')"
    by (simp add: char_defs)
  have t1: "trim (js '' BP 120 over 80 '') = js ''BP 120 over 80''"
    by (simp add: trim_def char_defs)
  have h2: "trim (js ''Fever. Cough. Rash. Pain. Chills. Sweats.'') \<noteq> []"
    by (simp add: trim_def char_defs)
  have v2: "chunkText000 (js ''Fever. Cough. Rash. Pain. Chills. Sweats.'')
       = [js ''Fever. Cough. Rash. Pain. Chills.'', js ''Sweats.'']"
    by (simp add: chunk_defs rx_defs char_defs)
  have h3: "trim (js ''Fever.'' @ [10, 10] @ js ''Cough.'') \<noteq> []"
    by (simp add: trim_def char_defs)
  have v3: "chunks001 (js ''Fever.'' @ [10, 10] @ js ''Cough.'') = [js ''Fever.'', js ''Cough.'']"
    by (simp add: chunk_defs rx_defs char_defs)
  show ?thesis
    using h1 n1 t1 h2 v2 h3 v3
      chunks_nonempty [OF h1] chunks_nonempty [OF h2] chunks_nonempty [OF h3]
    by simp
qed

text \<open>
  The first variant groups what is left of the narrative after the answer lines are
  removed: it returns no chunk exactly when nothing but white space is left.
\<close>

lemma chunkText000_Nil: "chunkText000 [] = []"
proof -
  have "matchAll sentRx000 [] = []"
    by (simp add: rx_defs char_defs)
  then show ?thesis
    by (simp add: chunkText000_def sentences000_def trim_def slice_def del: matchAll.simps)
qed

lemma chunks000_empty_iff: "chunks000 t = [] \<longleftrightarrow> stripSolution t = []"
proof
  assume e: "chunks000 t = []"
  show "stripSolution t = []"
  proof (rule ccontr)
    assume "stripSolution t \<noteq> []"
    then have "trim (stripSolution t) \<noteq> []"
      by (simp add: stripSolution_def trim_idem)
    from chunks_nonempty [OF this] e show False
      by (simp add: chunks000_def)
  qed
next
  assume "stripSolution t = []"
  then show "chunks000 t = []"
    by (simp add: chunks000_def chunkText000_Nil)
qed


section \<open>The two variants of the chunker\<close>

lemma tight_Cons: "tight (c # cs) \<Longrightarrow> tight cs"
  by (cases cs rule: tight.cases) auto

lemma tight_append: "tight (xs @ ys) \<Longrightarrow> tight ys"
  by (induction xs) (auto dest: tight_Cons)

lemma tight_drop: "tight s \<Longrightarrow> tight (drop k s)"
  by (metis append_take_drop_id tight_append)

lemma tight_mid: "tight (xs @ a # b # c # ys) \<Longrightarrow> \<not> (isTerm a \<and> isWs b \<and> isWs c)"
  by (drule tight_append) simp

text \<open>
  Backtracking into a greedy run does not help when what follows the run cannot
  start with a character of the run's class.
\<close>

lemma concat_runs:
  assumes "\<And>c cs. P c \<Longrightarrow> f (c # cs) = []"
  shows "concat (map f (runs P s)) = f (dropWhile P s)"
  by (induction s) (auto simp: assms)

lemma ends_PlusC_Cat:
  assumes "\<And>c cs. P c \<Longrightarrow> ends b (c # cs) = []"
  shows "ends (Cat (PlusC P) b) s =
     (case s of [] \<Rightarrow> [] | c # cs \<Rightarrow> if P c then ends b (dropWhile P cs) else [])"
  by (cases s) (simp_all add: concat_runs [of P "ends b"] assms)

lemma case_dropWhile:
  assumes "\<And>d. \<not> P d \<Longrightarrow> Q d"
  shows "(case dropWhile P xs of [] \<Rightarrow> a | d # ds \<Rightarrow> if Q d then f ds else a')
     = (case dropWhile P xs of [] \<Rightarrow> a | d # ds \<Rightarrow> f ds)"
proof (cases "dropWhile P xs")
  case Nil
  show ?thesis by (simp only: Nil list.case)
next
  case (Cons d ds)
  then have "\<not> P d" by (metis hd_dropWhile list.sel(1) list.distinct(1))
  then have "Q d" by (rule assms)
  then show ?thesis by (simp only: Cons list.case if_True)
qed

lemma sentenceTail_000: "isTerm c \<Longrightarrow> ends (Or (PlusC isWs) Dollar) (c # cs) = []"
  by (auto dest: isTerm_not_isWs)

lemma sentenceTail_001: "isTerm c \<Longrightarrow> ends (Or (Cls isWs) Dollar) (c # cs) = []"
  by (auto dest: isTerm_not_isWs)

text \<open>The sentence patterns at the start of a text, without the backtracking.\<close>

lemma ends_sentence:
  assumes "\<And>c cs. isTerm c \<Longrightarrow> ends y (c # cs) = []"
  shows "ends (Cat (PlusC notTerm) (Cat (PlusC isTerm) y)) s =
     (case s of [] \<Rightarrow> []
      | c # cs \<Rightarrow>
          if isTerm c then []
          else (case dropWhile notTerm cs of [] \<Rightarrow> []
                | d # ds \<Rightarrow> ends y (dropWhile isTerm ds)))"
proof -
  have y: "ends (Cat (PlusC isTerm) y) u =
      (case u of [] \<Rightarrow> [] | c # cs \<Rightarrow> if isTerm c then ends y (dropWhile isTerm cs) else [])" for u
    by (intro ends_PlusC_Cat) (rule assms)
  have n: "ends (Cat (PlusC isTerm) y) (c # cs) = []" if "notTerm c" for c cs
    using that by (simp add: y notTerm_def)
  have "ends (Cat (PlusC notTerm) (Cat (PlusC isTerm) y)) s =
      (case s of [] \<Rightarrow> [] | c # cs \<Rightarrow>
         if notTerm c then ends (Cat (PlusC isTerm) y) (dropWhile notTerm cs) else [])"
    by (rule ends_PlusC_Cat) (rule n)
  also have "\<dots> = (case s of [] \<Rightarrow> []
      | c # cs \<Rightarrow>
          if isTerm c then []
          else (case dropWhile notTerm cs of [] \<Rightarrow> []
                | d # ds \<Rightarrow> ends y (dropWhile isTerm ds)))"
  proof -
    have cd: "(case dropWhile notTerm cs of [] \<Rightarrow> []
          | d # ds \<Rightarrow> if isTerm d then ends y (dropWhile isTerm ds) else [])
        = (case dropWhile notTerm cs of [] \<Rightarrow> [] | d # ds \<Rightarrow> ends y (dropWhile isTerm ds))" for cs
      by (rule case_dropWhile) (simp add: notTerm_def)
    show ?thesis
      by (cases s) (simp_all add: y cd notTerm_def del: ends.simps)
  qed
  finally show ?thesis .
qed

lemma ends_sentRx000_start:
  "ends sentRx000 s =
     (case s of [] \<Rightarrow> []
      | c # cs \<Rightarrow>
          if isTerm c then []
          else (case dropWhile notTerm cs of [] \<Rightarrow> []
                | d # ds \<Rightarrow> ends (Or (PlusC isWs) Dollar) (dropWhile isTerm ds)))"
  unfolding sentRx000_def by (rule ends_sentence) (rule sentenceTail_000)

lemma ends_sentRx001_start:
  "ends sentRx001 s =
     (case s of [] \<Rightarrow> []
      | c # cs \<Rightarrow>
          if isTerm c then []
          else (case dropWhile notTerm cs of [] \<Rightarrow> []
                | d # ds \<Rightarrow> ends (Or (Cls isWs) Dollar) (dropWhile isTerm ds)))"
  unfolding sentRx001_def by (rule ends_sentence) (rule sentenceTail_001)

lemma runs_single: "s = [] \<or> \<not> P (hd s) \<Longrightarrow> runs P s = [s]"
  by (cases s) auto

lemma tail_tight:
  assumes "tight (xs @ b # r)" and "isTerm b"
  shows "ends (Or (PlusC isWs) Dollar) r = ends (Or (Cls isWs) Dollar) r"
proof (cases r)
  case Nil
  then show ?thesis by simp
next
  case (Cons w r')
  show ?thesis
  proof (cases "isWs w")
    case False
    with Cons show ?thesis by simp
  next
    case True
    have "r' = [] \<or> \<not> isWs (hd r')"
    proof (cases r')
      case Nil
      then show ?thesis by simp
    next
      case (Cons w2 r'')
      with assms \<open>r = w # r'\<close> True tight_mid [of xs b w w2 r''] show ?thesis by simp
    qed
    then have "runs isWs r' = [r']" by (rule runs_single)
    with Cons True show ?thesis by simp
  qed
qed

lemma ends_sentence_tight:
  assumes "tight s"
  shows "ends sentRx000 s = ends sentRx001 s"
proof (cases s)
  case Nil
  then show ?thesis
    by (simp add: sentRx000_def sentRx001_def)
next
  case s: (Cons c cs)
  show ?thesis
  proof (cases "dropWhile notTerm cs")
    case Nil
    show ?thesis
      unfolding ends_sentRx000_start ends_sentRx001_start
      by (simp only: s Nil list.case if_cancel)
  next
    case (Cons d ds)
    then have d: "isTerm d"
      by (metis hd_dropWhile list.sel(1) list.distinct(1) notTerm_def)
    let ?B = "d # takeWhile isTerm ds"
    let ?r = "dropWhile isTerm ds"
    have B: "?B = butlast ?B @ [last ?B]" by (rule append_butlast_last_id [symmetric]) simp
    have lastB: "isTerm (last ?B)"
      using d by (metis (no_types) last_in_set list.distinct(1) set_ConsD set_takeWhileD)
    have "cs = takeWhile notTerm cs @ d # ds"
      using Cons by (metis takeWhile_dropWhile_id)
    then have "s = c # takeWhile notTerm cs @ ?B @ ?r"
      using s by simp
    then have "s = (c # takeWhile notTerm cs @ butlast ?B) @ last ?B # ?r"
      using B by (metis append.assoc append_Cons append_Nil)
    with assms have "tight ((c # takeWhile notTerm cs @ butlast ?B) @ last ?B # ?r)" by simp
    from tail_tight [OF this lastB]
    show ?thesis
      unfolding ends_sentRx000_start ends_sentRx001_start
      by (simp only: s Cons list.case)
  qed
qed

lemma search_sentence_tight: "tight s \<Longrightarrow> search sentRx000 s = search sentRx001 s"
proof (induction s)
  case Nil
  then show ?case by (simp add: ends_sentence_tight)
next
  case (Cons c cs)
  from Cons.prems have "tight cs" by (rule tight_Cons)
  with Cons.IH have "search sentRx000 cs = search sentRx001 cs" by simp
  with ends_sentence_tight [OF Cons.prems] show ?case by (simp cong: list.case_cong)
qed

lemma matchAll_sentence_tight: "tight s \<Longrightarrow> matchAll sentRx000 s = matchAll sentRx001 s"
proof (induction "length s" arbitrary: s rule: less_induct)
  case less
  note se = search_sentence_tight [OF less.prems]
  show ?case
  proof (cases "search sentRx001 s")
    case None
    with se show ?thesis by (subst matchAll.simps, subst (2) matchAll.simps) simp
  next
    case (Some pn)
    obtain p n where pn: "pn = (p, n)" by (cases pn)
    show ?thesis
    proof (cases "n = 0")
      case True
      show ?thesis
      proof (cases "p < length s")
        case l: True
        then have "length (drop (Suc p) s) < length s" by simp
        from less.hyps [OF this tight_drop [OF less.prems]] se Some pn True l
        show ?thesis by (subst matchAll.simps, subst (2) matchAll.simps) simp
      next
        case False
        with se Some pn True
        show ?thesis by (subst matchAll.simps, subst (2) matchAll.simps) simp
      qed
    next
      case False
      from search_Some [of sentRx001 s p n] Some pn have "p \<le> length s"
        and "\<exists>e \<in> set (ends sentRx001 (drop p s)). n = length (drop p s) - length e" by auto
      with False have "length (drop (p + n) s) < length s" by (cases s) auto
      from less.hyps [OF this tight_drop [OF less.prems]] se Some pn False
      show ?thesis by (subst matchAll.simps, subst (2) matchAll.simps) simp
    qed
  qed
qed

lemma stripMatches_none: "search r s = None \<Longrightarrow> stripMatches r s = s"
  by (subst stripMatches.simps) simp

lemma splitLoop_none:
  "\<forall>k \<le> length s. ends r (drop k s) = [] \<Longrightarrow> splitLoop r s p q = [drop p s]"
proof (induction r s p q rule: splitLoop.induct)
  case (1 r s p q)
  show ?case
  proof (cases "q < length s")
    case True
    with "1.prems" have e: "ends r (drop q s) = []" by simp
    from "1.IH"(1) [OF True e "1.prems"] True e
    show ?thesis by (subst splitLoop.simps) simp
  next
    case False
    then show ?thesis by (subst splitLoop.simps) simp
  qed
qed

lemma splitRx_none: "search r s = None \<Longrightarrow> s \<noteq> [] \<Longrightarrow> splitRx r s = [s]"
  by (simp add: splitRx_def search_None splitLoop_none del: splitLoop.simps)

text \<open>White space around a text changes its chunks in neither variant.\<close>

lemma trim_ws_left:
  assumes "list_all isWs l"
  shows "trim (l @ x) = trim x"
proof -
  have "dropWhile isWs (l @ x) = dropWhile isWs x"
    using assms by (intro dropWhile_append2) (simp add: list_all_iff)
  then show ?thesis by (simp add: trim_def)
qed

lemma trim_ws_right:
  assumes "list_all isWs w"
  shows "trim (x @ w) = trim x"
proof (cases "list_all isWs x")
  case True
  with assms have "trim (x @ w) = []" "trim x = []" by (simp_all add: trim_Nil_iff)
  then show ?thesis by simp
next
  case False
  then obtain c where "c \<in> set x" "\<not> isWs c" by (auto simp: list_all_iff)
  then have "dropWhile isWs (x @ w) = dropWhile isWs x @ w" by simp
  moreover have "dropWhile isWs (rev w @ ys) = dropWhile isWs ys" for ys
    using assms by (intro dropWhile_append2) (simp add: list_all_iff)
  ultimately show ?thesis by (simp add: trim_def)
qed

lemma padLast_length: "length (padLast w as) = length as"
  by (induction w as rule: padLast.induct) auto

lemma padLast_snoc: "padLast w (as @ [a]) = as @ [a @ w]"
  by (induction w as rule: padLast.induct) auto

lemma slice_padLast:
  assumes "i < length as" and "list_all isWs w"
  shows "trim (concat (slice i j (padLast w as))) = trim (concat (slice i j as))"
proof -
  from assms(1) obtain bs a where as: "as = bs @ [a]" by (cases as rule: rev_cases) auto
  with assms(1) have i: "i \<le> length bs" by simp
  let ?ys = "drop i bs"
  show ?thesis
  proof (cases "j - i \<le> length ?ys")
    case True
    with i show ?thesis by (simp add: as padLast_snoc slice_def)
  next
    case False
    with i have "slice i j (bs @ [a @ w]) = ?ys @ [a @ w]" "slice i j (bs @ [a]) = ?ys @ [a]"
      by (simp_all add: slice_def)
    then have "concat (slice i j (padLast w as)) = concat (slice i j as) @ w"
      by (simp add: as padLast_snoc)
    with assms(2) show ?thesis by (simp add: trim_ws_right)
  qed
qed

lemma chunk_padLast:
  "list_all isWs w \<Longrightarrow> chunkLoop001 i (padLast w as) = chunkLoop001 i as"
proof (induction i as rule: chunkLoop001.induct)
  case (1 i as)
  show ?case
  proof (cases "i < length as")
    case True
    from "1.IH" [OF True "1.prems"] slice_padLast [OF True "1.prems", of "i + 5"] True
    show ?thesis
      by (subst chunkLoop001.simps, subst (2) chunkLoop001.simps) (simp add: padLast_length)
  next
    case False
    then show ?thesis
      by (subst chunkLoop001.simps, subst (2) chunkLoop001.simps) (simp add: padLast_length)
  qed
qed

lemma chunk_other_head:
  "0 < i \<Longrightarrow> chunkLoop001 i (x # xs) = chunkLoop001 i (y # xs)"
proof (induction "Suc (length xs) - i" arbitrary: i rule: less_induct)
  case less
  show ?case
  proof (cases "i < Suc (length xs)")
    case True
    then have "Suc (length xs) - (i + 5) < Suc (length xs) - i" by simp
    from less.hyps [OF this] less.prems
    have r: "chunkLoop001 (i + 5) (x # xs) = chunkLoop001 (i + 5) (y # xs)" by simp
    from less.prems obtain k where k: "i = Suc k" by (cases i) auto
    have "slice i (i + 5) (x # xs) = slice i (i + 5) (y # xs)"
      by (simp add: slice_def k)
    with r True show ?thesis
      by (subst chunkLoop001.simps, subst (2) chunkLoop001.simps) simp
  next
    case False
    then show ?thesis
      by (subst chunkLoop001.simps, subst (2) chunkLoop001.simps) simp
  qed
qed

lemma chunk_padFirst:
  assumes "list_all isWs l"
  shows "chunkLoop001 0 (padFirst l as) = chunkLoop001 0 as"
proof (cases as)
  case Nil
  then show ?thesis by simp
next
  case (Cons a as')
  have "trim (concat (slice 0 5 ((l @ a) # as'))) = trim (concat (slice 0 5 (a # as')))"
    using assms by (simp add: slice_def trim_ws_left)
  moreover have "chunkLoop001 5 ((l @ a) # as') = chunkLoop001 5 (a # as')"
    by (rule chunk_other_head) simp
  ultimately show ?thesis
    unfolding Cons padFirst.simps
    by (subst chunkLoop001.simps, subst (2) chunkLoop001.simps) simp
qed

lemma ends_tail001:
  "ends (Or (Cls isWs) Dollar) r = (case r of [] \<Rightarrow> [[]] | w # r' \<Rightarrow> if isWs w then [r'] else [])"
  by (cases r) simp_all

lemma ends_sentRx001: "ends sentRx001 s = (case sentEnd s of None \<Rightarrow> [] | Some e \<Rightarrow> [e])"
proof (cases s)
  case Nil
  show ?thesis
    unfolding ends_sentRx001_start sentEnd_def
    by (simp only: Nil list.case option.case)
next
  case s: (Cons c cs)
  show ?thesis
  proof (cases "isTerm c")
    case True
    show ?thesis
      unfolding ends_sentRx001_start sentEnd_def
      by (simp only: s list.case True if_True option.case)
  next
    case nc: False
    show ?thesis
    proof (cases "dropWhile notTerm cs")
      case Nil
      show ?thesis
        unfolding ends_sentRx001_start sentEnd_def
        by (simp only: s list.case nc if_False Nil option.case)
    next
      case D: (Cons d ds)
      show ?thesis
      proof (cases "dropWhile isTerm ds")
        case Nil
        show ?thesis
          unfolding ends_sentRx001_start sentEnd_def ends_tail001
          by (simp only: s list.case nc if_False D Nil option.case)
      next
        case E: (Cons w r)
        show ?thesis
          unfolding ends_sentRx001_start sentEnd_def ends_tail001
          by (cases "isWs w") (simp_all only: s list.case nc if_False if_True D E option.case)
      qed
    qed
  qed
qed

lemma ws_notTerm: "isWs c \<Longrightarrow> notTerm c"
  using isTerm_not_isWs by (auto simp: notTerm_def)

lemma sentEnd_ws: "list_all isWs t \<Longrightarrow> sentEnd t = None"
proof (cases t)
  case Nil
  then show ?thesis by (simp add: sentEnd_def)
next
  case (Cons c cs)
  assume a: "list_all isWs t"
  with Cons have nc: "\<not> isTerm c" using isTerm_not_isWs by auto
  have d: "dropWhile notTerm cs = []"
    using a Cons by (auto simp: list_all_iff ws_notTerm)
  show ?thesis by (simp only: sentEnd_def Cons list.case nc if_False d)
qed

lemma sentEnd_trailing:
  assumes x: "x \<noteq> []" "\<not> isWs (last x)" and t: "list_all isWs t"
  shows "sentEnd (x @ t) =
     (case sentEnd x of None \<Rightarrow> None
      | Some e \<Rightarrow> if e = [] \<and> t \<noteq> [] then Some (tl t) else Some (e @ t))"
proof -
  from x(1) obtain c cs where xc: "x = c # cs" by (cases x) auto
  have tn: "dropWhile notTerm t = []"
    using t by (auto simp: list_all_iff ws_notTerm)
  have tt: "dropWhile isTerm t = t"
    using t isTerm_not_isWs by (cases t) auto
  show ?thesis
  proof (cases "isTerm c")
    case True
    then show ?thesis by (simp add: sentEnd_def xc)
  next
    case nc: False
    show ?thesis
    proof (cases "dropWhile notTerm cs")
      case Nil
      then have Dt: "dropWhile notTerm (cs @ t) = []" using tn by (simp add: dropWhile_append)
      show ?thesis
        by (simp only: sentEnd_def xc append_Cons list.case nc if_False Nil Dt option.case)
    next
      case (Cons d ds)
      then have "d \<in> set cs" "\<not> notTerm d"
        by (metis list.set_intros(1) set_dropWhileD, metis hd_dropWhile list.sel(1) list.distinct(1))
      then have D: "dropWhile notTerm (cs @ t) = d # (ds @ t)"
        using Cons by simp
      have cs: "cs = takeWhile notTerm cs @ d # ds" using Cons by (metis takeWhile_dropWhile_id)
      show ?thesis
      proof (cases "dropWhile isTerm ds")
        case Nil
        then have "dropWhile isTerm (ds @ t) = t" using tt by (simp add: dropWhile_append)
        moreover have "sentEnd x = Some []"
          by (simp only: sentEnd_def xc list.case nc if_False Cons Nil)
        moreover have "sentEnd (x @ t) = (case t of [] \<Rightarrow> Some [] | w # r \<Rightarrow> if isWs w then Some r else None)"
          using calculation(1) by (simp only: sentEnd_def xc append_Cons list.case nc if_False D)
        ultimately show ?thesis using t by (cases t) auto
      next
        case E: (Cons w r)
        then have "w \<in> set ds" "\<not> isTerm w"
          by (metis list.set_intros(1) set_dropWhileD, metis hd_dropWhile list.sel(1) list.distinct(1))
        then have Et: "dropWhile isTerm (ds @ t) = w # (r @ t)"
          using E by simp
        have sx: "sentEnd x = (if isWs w then Some r else None)"
          by (simp only: sentEnd_def xc list.case nc if_False Cons E)
        have sxt: "sentEnd (x @ t) = (if isWs w then Some (r @ t) else None)"
          by (simp only: sentEnd_def xc append_Cons list.case nc if_False D Et)
        have "r \<noteq> []" if "isWs w"
        proof
          assume "r = []"
          with E have "ds = takeWhile isTerm ds @ [w]" by (metis takeWhile_dropWhile_id)
          with cs have "last cs = w" by (metis last_ConsR last_appendR last_snoc list.distinct(1)
                snoc_eq_iff_butlast)
          with xc cs have "last x = w" by (metis append_is_Nil_conv last_ConsR list.distinct(1))
          with that x(2) show False by simp
        qed
        with sx sxt show ?thesis by auto
      qed
    qed
  qed
qed

lemma sentEnd_SomeD:
  assumes "sentEnd x = Some e"
  shows "suffix e x \<and> length e < length x"
proof -
  from assms have mem: "e \<in> set (ends sentRx001 x)" by (simp add: ends_sentRx001)
  then have suf: "suffix e x" by (rule ends_suffix)
  then obtain m where m: "x = m @ e" by (auto simp: suffix_def)
  from mem have "list_ex isTerm m"
    unfolding sentRx001_def using m by (rule ends_sentence_term)
  then have "m \<noteq> []" by auto
  with m suf show ?thesis by simp
qed

lemma search_sentRx001_Cons:
  "search sentRx001 (c # cs) =
     (case sentEnd (c # cs) of
        Some e \<Rightarrow> Some (0, length (c # cs) - length e)
      | None \<Rightarrow> map_option (\<lambda>(p, n). (Suc p, n)) (search sentRx001 cs))"
  by (cases "sentEnd (c # cs)") (simp_all add: ends_sentRx001)

lemma search_ws: "list_all isWs t \<Longrightarrow> search sentRx001 t = None"
proof (induction t)
  case Nil
  then show ?case by (simp add: ends_sentRx001 sentEnd_def)
next
  case (Cons c cs)
  from Cons.prems have "sentEnd (c # cs) = None" by (rule sentEnd_ws)
  moreover from Cons have "search sentRx001 cs = None" by simp
  ultimately show ?case by (simp add: search_sentRx001_Cons del: search.simps)
qed

lemma search_trailing:
  assumes t: "list_all isWs t"
  shows "x = [] \<or> \<not> isWs (last x) \<Longrightarrow>
     search sentRx001 (x @ t) =
       (case search sentRx001 x of
          None \<Rightarrow> None
        | Some (p, n) \<Rightarrow> Some (p, if p + n = length x \<and> t \<noteq> [] then Suc n else n))"
proof (induction x)
  case Nil
  have "search sentRx001 [] = None" by (simp add: ends_sentRx001 sentEnd_def)
  with search_ws [OF t] show ?case by simp
next
  case (Cons c cs)
  then have lx: "\<not> isWs (last (c # cs))" by simp
  have tr: "sentEnd ((c # cs) @ t) =
     (case sentEnd (c # cs) of None \<Rightarrow> None
      | Some e \<Rightarrow> if e = [] \<and> t \<noteq> [] then Some (tl t) else Some (e @ t))"
    by (rule sentEnd_trailing [OF _ lx t]) simp
  show ?case
  proof (cases "sentEnd (c # cs)")
    case None
    with tr have n2: "sentEnd (c # cs @ t) = None" by simp
    have "cs = [] \<or> \<not> isWs (last cs)" using lx by auto
    from Cons.IH [OF this] None n2 show ?thesis
      by (simp add: search_sentRx001_Cons del: search.simps split: option.splits)
  next
    case (Some e)
    from sentEnd_SomeD [OF Some] have le: "length e < length (c # cs)" by simp
    show ?thesis
    proof (cases "e = [] \<and> t \<noteq> []")
      case True
      then obtain w t' where tw: "t = w # t'" by (cases t) auto
      from True tr Some have "sentEnd (c # cs @ t) = Some (tl t)" by simp
      with Some True show ?thesis
        by (simp add: search_sentRx001_Cons tw del: search.simps)
    next
      case False
      with tr Some have "sentEnd (c # cs @ t) = Some (e @ t)" by simp
      moreover have "Suc (length cs) - length e = Suc (length cs) \<longleftrightarrow> e = []"
        using le by (cases e) auto
      ultimately show ?thesis using Some False le
        by (auto simp add: search_sentRx001_Cons simp del: search.simps)
    qed
  qed
qed

lemma search_sentRx001_pos:
  assumes "search sentRx001 x = Some (p, n)"
  shows "0 < n \<and> p + n \<le> length x"
proof -
  from search_Some [OF assms] obtain e where e: "p \<le> length x"
    "e \<in> set (ends sentRx001 (drop p x))" "n = length (drop p x) - length e" by blast
  have "sentEnd (drop p x) = Some e"
  proof (cases "sentEnd (drop p x)")
    case None
    with e(2) show ?thesis by (simp add: ends_sentRx001)
  next
    case (Some e')
    with e(2) show ?thesis by (simp add: ends_sentRx001)
  qed
  from sentEnd_SomeD [OF this] e(1,3) show ?thesis by auto
qed

lemma matchAll_sentRx001_Some:
  assumes "search sentRx001 x = Some (p, n)"
  shows "matchAll sentRx001 x = take n (drop p x) # matchAll sentRx001 (drop (p + n) x)"
  using assms search_sentRx001_pos [OF assms] by (subst matchAll.simps) simp

lemma matchAll_sentRx001_None:
  "search sentRx001 x = None \<Longrightarrow> matchAll sentRx001 x = []"
  by (subst matchAll.simps) simp

lemma last_drop: "drop k x \<noteq> [] \<Longrightarrow> last (drop k x) = last x"
  by (metis append_take_drop_id last_appendR)

lemma matchAll_trailing:
  assumes t: "list_all isWs t"
  shows "x = [] \<or> \<not> isWs (last x) \<Longrightarrow>
     \<exists>w. list_all isWs w \<and> matchAll sentRx001 (x @ t) = padLast w (matchAll sentRx001 x)"
proof (induction "length x" arbitrary: x rule: less_induct)
  case less
  note st = search_trailing [OF t less.prems]
  show ?case
  proof (cases "search sentRx001 x")
    case None
    with st have "search sentRx001 (x @ t) = None" by simp
    with None have "matchAll sentRx001 (x @ t) = padLast [] (matchAll sentRx001 x)"
      by (simp add: matchAll_sentRx001_None del: matchAll.simps)
    then show ?thesis by (intro exI [of _ "[]"]) simp
  next
    case (Some pn)
    obtain p n where pn: "pn = (p, n)" by (cases pn)
    with Some have s: "search sentRx001 x = Some (p, n)" by simp
    from search_sentRx001_pos [OF s] have n: "0 < n" "p + n \<le> length x" by simp_all
    note A = matchAll_sentRx001_Some [OF s]
    show ?thesis
    proof (cases "p + n = length x \<and> t \<noteq> []")
      case True
      with st s have s2: "search sentRx001 (x @ t) = Some (p, Suc n)" by simp
      from True obtain w t' where tw: "t = w # t'" by (cases t) auto
      with t have w: "isWs w" "list_all isWs t'" by simp_all
      from True have dx: "drop (p + n) x = []" by simp
      from True n have tk: "take n (drop p x) = drop p x" by auto
      have lp: "length (drop p x) = n" "p \<le> length x" using True by auto
      have "take (Suc n) (drop p (x @ t)) = drop p x @ [w]"
        using lp by (simp add: tw)
      moreover have "drop (p + Suc n) (x @ t) = t'"
      proof -
        have "p + Suc n = length x + 1" using True by simp
        then show ?thesis by (simp add: tw)
      qed
      moreover have "matchAll sentRx001 t' = []"
        by (rule matchAll_sentRx001_None [OF search_ws [OF w(2)]])
      ultimately have "matchAll sentRx001 (x @ t) = [drop p x @ [w]]"
        using matchAll_sentRx001_Some [OF s2] by simp
      moreover have "matchAll sentRx001 x = [drop p x]"
        using A dx tk matchAll_sentRx001_None [of "[]"] search_ws [of "[]"] by simp
      ultimately have "matchAll sentRx001 (x @ t) = padLast [w] (matchAll sentRx001 x)" by simp
      with w(1) show ?thesis by (intro exI [of _ "[w]"]) simp
    next
      case False
      with st s have s2: "search sentRx001 (x @ t) = Some (p, n)" by auto
      let ?x' = "drop (p + n) x"
      have B: "matchAll sentRx001 (x @ t) = take n (drop p x) # matchAll sentRx001 (?x' @ t)"
        using matchAll_sentRx001_Some [OF s2] n by simp
      have l: "length ?x' < length x" using n by simp
      have e: "?x' = [] \<or> \<not> isWs (last ?x')"
        using less.prems last_drop [of "p + n" x] by (cases "?x' = []") auto
      from less.hyps [OF l e] obtain w where w: "list_all isWs w"
        "matchAll sentRx001 (?x' @ t) = padLast w (matchAll sentRx001 ?x')" by blast
      show ?thesis
      proof (cases "matchAll sentRx001 ?x'")
        case Nil
        with A B w(2) have "matchAll sentRx001 (x @ t) = padLast [] (matchAll sentRx001 x)"
          by simp
        then show ?thesis by (intro exI [of _ "[]"]) simp
      next
        case (Cons a as)
        with A B w(2) have "matchAll sentRx001 (x @ t) = padLast w (matchAll sentRx001 x)"
          by simp
        with w(1) show ?thesis by blast
      qed
    qed
  qed
qed

lemma sentEnd_leading:
  assumes l: "list_all isWs l" and s: "s = [] \<or> \<not> isTerm (hd s)"
  shows "sentEnd (l @ s) = sentEnd s"
proof (cases l)
  case Nil
  then show ?thesis by simp
next
  case (Cons w l')
  with l have w: "\<not> isTerm w" and l': "\<forall>x \<in> set l'. notTerm x"
    using isTerm_not_isWs by (auto simp: list_all_iff ws_notTerm)
  show ?thesis
  proof (cases s)
    case Nil
    have "sentEnd [] = None" by (simp add: sentEnd_def)
    with Nil sentEnd_ws [OF l] show ?thesis by simp
  next
    case s': (Cons c cs)
    with s have c: "\<not> isTerm c" by simp
    have "dropWhile notTerm (l' @ c # cs) = dropWhile notTerm (c # cs)"
      using l' by (intro dropWhile_append2) simp
    also have "\<dots> = dropWhile notTerm cs" using c by (simp add: notTerm_def)
    finally have d: "dropWhile notTerm (l' @ c # cs) = dropWhile notTerm cs" .
    show ?thesis
      by (simp only: sentEnd_def Cons s' append_Cons list.case w c if_False d)
  qed
qed

lemma search_leading:
  assumes s: "s = [] \<or> \<not> isTerm (hd s)"
  shows "list_all isWs l \<Longrightarrow>
     search sentRx001 (l @ s) =
       (case search sentRx001 s of
          None \<Rightarrow> None
        | Some (p, n) \<Rightarrow> if p = 0 then Some (0, length l + n) else Some (length l + p, n))"
proof (induction l)
  case Nil
  show ?case by (cases "search sentRx001 s") auto
next
  case (Cons w l')
  then have l': "list_all isWs l'" by simp
  have se: "sentEnd (w # l' @ s) = sentEnd s"
    using sentEnd_leading [OF Cons.prems s] by simp
  show ?case
  proof (cases "sentEnd s")
    case (Some e)
    from sentEnd_SomeD [OF Some] have le: "length e < length s" by simp
    then obtain c cs where sc: "s = c # cs" by (cases s) auto
    from Some have "search sentRx001 s = Some (0, length s - length e)"
      unfolding sc by (simp add: search_sentRx001_Cons del: search.simps)
    moreover from Some se have "search sentRx001 ((w # l') @ s)
        = Some (0, length ((w # l') @ s) - length e)"
      by (simp add: search_sentRx001_Cons del: search.simps)
    ultimately show ?thesis using le by simp
  next
    case None
    with se have a: "search sentRx001 ((w # l') @ s)
        = map_option (\<lambda>(p, n). (Suc p, n)) (search sentRx001 (l' @ s))"
      by (simp add: search_sentRx001_Cons del: search.simps)
    have nz: "p \<noteq> 0" if "search sentRx001 s = Some (p, n)" for p n
    proof (cases s)
      case Nil
      with that show ?thesis by (simp add: ends_sentRx001 sentEnd_def)
    next
      case (Cons c cs)
      with that None show ?thesis
        by (auto simp add: search_sentRx001_Cons simp del: search.simps)
    qed
    show ?thesis
    proof (cases "search sentRx001 s")
      case n: None
      with Cons.IH [OF l'] a show ?thesis by simp
    next
      case (Some pn)
      obtain p n where "pn = (p, n)" by (cases pn)
      with Some have sp: "search sentRx001 s = Some (p, n)" by simp
      with Cons.IH [OF l'] a nz [OF sp] show ?thesis by simp
    qed
  qed
qed

lemma matchAll_leading:
  assumes l: "list_all isWs l" and s: "s = [] \<or> \<not> isTerm (hd s)"
  shows "\<exists>l'. list_all isWs l' \<and> matchAll sentRx001 (l @ s) = padFirst l' (matchAll sentRx001 s)"
proof (cases "search sentRx001 s")
  case None
  with search_leading [OF s l] have "search sentRx001 (l @ s) = None" by simp
  with None have "matchAll sentRx001 (l @ s) = padFirst [] (matchAll sentRx001 s)"
    by (simp add: matchAll_sentRx001_None del: matchAll.simps)
  then show ?thesis by (intro exI [of _ "[]"]) simp
next
  case (Some pn)
  obtain p n where "pn = (p, n)" by (cases pn)
  with Some have sp: "search sentRx001 s = Some (p, n)" by simp
  note A = matchAll_sentRx001_Some [OF sp]
  show ?thesis
  proof (cases "p = 0")
    case True
    with search_leading [OF s l] sp
    have "search sentRx001 (l @ s) = Some (0, length l + n)" by simp
    from matchAll_sentRx001_Some [OF this]
    have "matchAll sentRx001 (l @ s) = (l @ take n s) # matchAll sentRx001 (drop n s)"
      by simp
    with A True have "matchAll sentRx001 (l @ s) = padFirst l (matchAll sentRx001 s)" by simp
    with l show ?thesis by blast
  next
    case False
    with search_leading [OF s l] sp
    have "search sentRx001 (l @ s) = Some (length l + p, n)" by simp
    from matchAll_sentRx001_Some [OF this]
    have "matchAll sentRx001 (l @ s) = take n (drop p s) # matchAll sentRx001 (drop (p + n) s)"
      by (simp add: add.assoc)
    with A have "matchAll sentRx001 (l @ s) = padFirst [] (matchAll sentRx001 s)" by simp
    then show ?thesis by (intro exI [of _ "[]"]) simp
  qed
qed

lemma tight_prefix: "tight (xs @ ys) \<Longrightarrow> tight xs"
  by (induction xs rule: tight.induct) auto

lemma trim_decomp:
  "\<exists>w. t = takeWhile isWs t @ trim t @ w \<and> list_all isWs w"
proof -
  let ?a = "dropWhile isWs t"
  have "rev ?a = takeWhile isWs (rev ?a) @ dropWhile isWs (rev ?a)" by simp
  then have "?a = rev (dropWhile isWs (rev ?a)) @ rev (takeWhile isWs (rev ?a))"
    by (metis rev_append rev_rev_ident)
  then have "?a = trim t @ rev (takeWhile isWs (rev ?a))" by (simp add: trim_def)
  moreover have "list_all isWs (rev (takeWhile isWs (rev ?a)))"
    by (auto simp: list_all_iff dest: set_takeWhileD)
  moreover have "t = takeWhile isWs t @ ?a" by simp
  ultimately show ?thesis by metis
qed

lemma trim_ends:
  assumes "trim t \<noteq> []"
  shows "\<not> isWs (hd (trim t))" and "\<not> isWs (last (trim t))"
proof -
  let ?a = "dropWhile isWs t"
  let ?b = "dropWhile isWs (rev ?a)"
  from assms have b: "?b \<noteq> []" by (simp add: trim_def)
  then have a: "?a \<noteq> []" by (cases "dropWhile isWs t") simp_all
  have "last ?b = last (rev ?a)"
    using b by (metis (no_types) append_Nil2 dropWhile_eq_Nil_conv last_appendR
        takeWhile_dropWhile_id)
  also have "\<dots> = hd ?a" using a by (simp add: last_rev)
  finally have "\<not> isWs (last ?b)" using a by (simp add: hd_dropWhile)
  then show "\<not> isWs (hd (trim t))" using b by (simp add: trim_def hd_rev)
  from b have "\<not> isWs (hd ?b)" by (rule hd_dropWhile)
  then show "\<not> isWs (last (trim t))" using b by (simp add: trim_def last_rev)
qed

lemma padFirst_Nil_iff: "padFirst l as = [] \<longleftrightarrow> as = []"
  by (cases as) auto

lemma padLast_Nil_iff: "padLast w as = [] \<longleftrightarrow> as = []"
  by (induction w as rule: padLast.induct) auto

lemma sentences001_padded:
  assumes nb: "trim t \<noteq> []" and h: "\<not> isWs (hd t) \<or> \<not> isTerm (hd (trim t))"
  shows "\<exists>l w. list_all isWs l \<and> list_all isWs w
     \<and> sentences001 t = padFirst l (padLast w (sentences001 (trim t)))"
proof -
  let ?u = "trim t"
  let ?l = "takeWhile isWs t"
  from trim_decomp [of t] obtain w where w: "t = ?l @ ?u @ w" "list_all isWs w" by blast
  have l: "list_all isWs ?l" by (auto simp: list_all_iff dest: set_takeWhileD)
  from trim_ends [OF nb] have u: "?u = [] \<or> \<not> isWs (last ?u)" by simp
  from matchAll_trailing [OF w(2) u] obtain w' where w': "list_all isWs w'"
    "matchAll sentRx001 (?u @ w) = padLast w' (matchAll sentRx001 ?u)" by blast
  have "\<exists>l'. list_all isWs l' \<and>
      matchAll sentRx001 (?l @ ?u @ w) = padFirst l' (matchAll sentRx001 (?u @ w))"
  proof (cases "?l = []")
    case True
    then have "matchAll sentRx001 (?l @ ?u @ w) = padFirst [] (matchAll sentRx001 (?u @ w))"
      by (cases "matchAll sentRx001 (?u @ w)") (simp_all del: matchAll.simps)
    then show ?thesis by (intro exI [of _ "[]"]) simp
  next
    case False
    then have "isWs (hd t)" by (cases t) (auto split: if_splits)
    with h have "\<not> isTerm (hd ?u)" by simp
    with nb have "?u @ w = [] \<or> \<not> isTerm (hd (?u @ w))" by simp
    from matchAll_leading [OF l this] show ?thesis .
  qed
  then obtain l' where l': "list_all isWs l'"
    "matchAll sentRx001 t = padFirst l' (padLast w' (matchAll sentRx001 ?u))"
    using w(1) w'(2) by metis
  show ?thesis
  proof (cases "matchAll sentRx001 ?u")
    case Nil
    with l'(2) have "matchAll sentRx001 t = []" by simp
    with Nil have "sentences001 t = [t]" "sentences001 ?u = [?u]"
      by (simp_all add: sentences001_def del: matchAll.simps)
    with w(1) have "sentences001 t = padFirst ?l (padLast w (sentences001 ?u))" by simp
    with l w(2) show ?thesis by blast
  next
    case (Cons a as)
    then have "sentences001 ?u = matchAll sentRx001 ?u"
      by (simp add: sentences001_def del: matchAll.simps)
    moreover from Cons l'(2) have "matchAll sentRx001 t \<noteq> []"
      by (simp add: padFirst_Nil_iff padLast_Nil_iff del: matchAll.simps)
    then have "sentences001 t = matchAll sentRx001 t"
      by (cases "matchAll sentRx001 t") (simp_all add: sentences001_def del: matchAll.simps)
    ultimately have "sentences001 t = padFirst l' (padLast w' (sentences001 ?u))"
      using l'(2) by simp
    with l'(1) w'(1) show ?thesis by blast
  qed
qed

text \<open>
  Claim C10, amended.  On a narrative that is not blank, has no match of the
  paragraph separator and no match of the Final Diagnosis pattern, in which no
  sentence terminator is followed by two white space characters, and which does not
  begin with white space followed by a sentence terminator, the two variants
  produce the same chunks.
\<close>

theorem C10_variants_agree_amended:
  assumes "trim t \<noteq> []"
    and "search paraSepRx t = None" and "search solutionRx t = None" and "tight t"
    and "\<not> isWs (hd t) \<or> \<not> isTerm (hd (trim t))"
  shows "chunks000 t = chunks001 t"
proof -
  let ?u = "trim t"
  from assms(1) have nb: "\<not> list_all isWs t" by (simp add: trim_Nil_iff)
  then have ne: "t \<noteq> []" by auto
  have nbu: "\<not> list_all isWs ?u"
    using assms(1) trim_Nil_iff [of ?u] by (simp add: trim_idem)
  from trim_decomp [of t] obtain w where w: "t = takeWhile isWs t @ ?u @ w" by blast
  with assms(4) have "tight (?u @ w)" by (metis tight_append)
  then have tu: "tight ?u" by (rule tight_prefix)
  have st: "stripSolution t = ?u"
    by (simp add: stripSolution_def stripMatches_none [OF assms(3)] del: stripMatches.simps)
  have "chunks000 t = chunkLoop001 0 (sentences000 ?u)"
    unfolding chunks000_def chunkText000_def st
    by (rule chunkLoop_same [OF sentences000_nonblank [OF nbu]])
  moreover have "sentences000 ?u = sentences001 ?u"
    by (simp add: sentences000_def sentences001_def matchAll_sentence_tight [OF tu]
        del: matchAll.simps)
  ultimately have a: "chunks000 t = chunkLoop001 0 (sentences001 ?u)" by simp
  have "paragraphs001 t = [t]"
    using assms(1) by (simp add: paragraphs001_def splitRx_none [OF assms(2) ne])
  then have b: "chunks001 t = chunkLoop001 0 (sentences001 t)"
    by (simp add: chunks001_def chunkPara001_def del: chunkLoop001.simps)
  from sentences001_padded [OF assms(1,5)] obtain l w' where
    "list_all isWs l" "list_all isWs w'"
    "sentences001 t = padFirst l (padLast w' (sentences001 ?u))" by blast
  then have "chunkLoop001 0 (sentences001 t) = chunkLoop001 0 (sentences001 ?u)"
    by (simp add: chunk_padFirst chunk_padLast del: chunkLoop001.simps)
  with a b show ?thesis by simp
qed

theorem C10_variants_agree_witness:
  "trim (js '' Fever. Cough.'' @ [10]) \<noteq> []
   \<and> search paraSepRx (js '' Fever. Cough.'' @ [10]) = None
   \<and> search solutionRx (js '' Fever. Cough.'' @ [10]) = None
   \<and> tight (js '' Fever. Cough.'' @ [10])
   \<and> \<not> isTerm (hd (trim (js '' Fever. Cough.'' @ [10])))
   \<and> chunks000 (js '' Fever. Cough.'' @ [10]) = chunks001 (js '' Fever. Cough.'' @ [10])
   \<and> chunks001 (js '' Fever. Cough.'' @ [10]) = [js ''Fever. Cough.'']"
proof -
  have h: "trim (js '' Fever. Cough.'' @ [10]) \<noteq> []"
    "search paraSepRx (js '' Fever. Cough.'' @ [10]) = None"
    "search solutionRx (js '' Fever. Cough.'' @ [10]) = None"
    "tight (js '' Fever. Cough.'' @ [10])"
    by (simp_all add: trim_def rx_defs char_defs)
  have g: "\<not> isTerm (hd (trim (js '' Fever. Cough.'' @ [10])))"
    by (simp add: trim_def char_defs)
  have v: "chunks001 (js '' Fever. Cough.'' @ [10]) = [js ''Fever. Cough.'']"
    by (simp add: chunk_defs rx_defs char_defs)
  show ?thesis
    using h g v C10_variants_agree_amended [OF h disjI2 [OF g]] by simp
qed

text \<open>
  Claim C10 as stated, at three narratives without a blank line and without a line
  that has the marker.  With two spaces after a terminator the chunks differ in
  their spacing; with white space at the start the second variant keeps a
  terminator that the first drops; and where the marker ends one line and text
  follows on the next, the first variant strips both lines, the second neither.
\<close>

theorem C10_variants_differ:
  "trim (js ''Stable.  2.5 mg given.'') \<noteq> []
   \<and> search paraSepRx (js ''Stable.  2.5 mg given.'') = None
   \<and> list_all (\<lambda>l. \<not> hasMarker_spec l) (splitNL (js ''Stable.  2.5 mg given.''))
   \<and> chunks000 (js ''Stable.  2.5 mg given.'') = [js ''Stable.  5 mg given.'']
   \<and> chunks001 (js ''Stable.  2.5 mg given.'') = [js ''Stable. 5 mg given.'']
   \<and> chunks000 (js ''Stable.  2.5 mg given.'') \<noteq> chunks001 (js ''Stable.  2.5 mg given.'')
   \<and> trim (js '' . Ok.'') \<noteq> []
   \<and> search paraSepRx (js '' . Ok.'') = None
   \<and> list_all (\<lambda>l. \<not> hasMarker_spec l) (splitNL (js '' . Ok.''))
   \<and> chunks000 (js '' . Ok.'') = [js ''Ok.'']
   \<and> chunks001 (js '' . Ok.'') = [js ''. Ok.'']
   \<and> search paraSepRx (js ''Final Diagnosis:'' @ [10] @ js ''Sepsis.'') = None
   \<and> list_all (\<lambda>l. \<not> hasMarker_spec l) (splitNL (js ''Final Diagnosis:'' @ [10] @ js ''Sepsis.''))
   \<and> chunks000 (js ''Final Diagnosis:'' @ [10] @ js ''Sepsis.'') = []
   \<and> chunks001 (js ''Final Diagnosis:'' @ [10] @ js ''Sepsis.'')
       = [js ''Final Diagnosis:'' @ [10] @ js ''Sepsis.'']"
  by (simp add: hasMarker_spec_def markerAt_spec_def chunk_defs rx_defs char_defs)

section \<open>What the students see\<close>

text \<open>
  Claim C1 at the narrative \<^verbatim>\<open>Patient has fever.\<close>, new line,
  \<^verbatim>\<open>Final Diagnosis: Pneumonia.\<close>  In the second variant the one chunk is the
  whole narrative, with the answer line, which the pattern of the first variant
  matches (from index 19, 27 characters).  In the first variant the narrative
  \<^verbatim>\<open>Final DiagnosisFinal Diagnosis: x\<close>, new line, \<^verbatim>\<open>: y.\<close> leaves the chunk
  \<^verbatim>\<open>Final Diagnosis\<close>, new line, \<^verbatim>\<open>: y.\<close>, which the pattern matches as a
  whole.
\<close>

theorem C1_answer_disclosed:
  "chunks (startCase001 (handleCaseUpload answerCase initSession)) = [answerCase]
   \<and> search solutionRx answerCase = Some (19, 27)
   \<and> chunks (startCase000 (handleCaseUpload
        (js ''Final DiagnosisFinal Diagnosis: x'' @ [10] @ js '': y.'') initSession))
      = [js ''Final Diagnosis'' @ [10] @ js '': y.'']
   \<and> search solutionRx (js ''Final Diagnosis'' @ [10] @ js '': y.'') = Some (0, 20)"
  by (simp add: answerCase_def startCase001_def startCase000_def handleCaseUpload_def
      initSession_def chunk_defs rx_defs char_defs)

text \<open>
  Claim C3 at the narrative \<^verbatim>\<open>Patient has fever. Patient has cough\<close>, which has
  no answer line to strip.  Both variants return the one chunk
  \<^verbatim>\<open>Patient has fever.\<close>: the words after it, which end without a terminator,
  are in no chunk.
\<close>

theorem C3_unterminated_text_dropped:
  "stripSolution (js ''Patient has fever. Patient has cough'') = js ''Patient has fever. Patient has cough''
   \<and> chunkText000 (js ''Patient has fever. Patient has cough'') = [js ''Patient has fever.'']
   \<and> chunks001 (js ''Patient has fever. Patient has cough'') = [js ''Patient has fever.'']"
  by (simp add: chunk_defs rx_defs char_defs)

section \<open>The visible count\<close>

text \<open>
  Claim C4 at two runs of actions.  In the first variant, pasting the narrative
  \<^verbatim>\<open>Final Diagnosis: Pneumonia\<close> and starting the case gives no chunk and the
  visible count 1.  In the second variant, after two of two chunks are visible and
  a new case is asked for, the count is still 2, and starting the next case sets it
  to 1.
\<close>

theorem C4_visible_beyond_chunks:
  "visibleIndex (run000 [Upload (js ''Final Diagnosis: Pneumonia''), StartCase] initSession) = 1
   \<and> chunks (run000 [Upload (js ''Final Diagnosis: Pneumonia''), StartCase] initSession) = []
   \<and> visibleIndex (run001 [Upload (js ''A. B. C. D. E. F.''), StartCase, RevealNext, NewCase]
         initSession) = 2
   \<and> visibleIndex (run001 [Upload (js ''A. B. C. D. E. F.''), StartCase, RevealNext, NewCase,
         Upload (js ''G.''), StartCase] initSession) = 1"
  by (simp add: session_defs chunk_defs rx_defs char_defs)

end
